theory Spec2Isabelle
  imports Main "HOL-Library.Word"
begin

section \<open>Session manager (package sessionmanager)\<close>

text \<open>
  A \<^verbatim>\<open>time.Time\<close> is a point on a linear time line and a \<^verbatim>\<open>time.Duration\<close> a
  distance on it; both are integers counting nanoseconds. \<^verbatim>\<open>t.After(u)\<close> is \<open>u < t\<close>
  and \<^verbatim>\<open>t.Add(d)\<close> is \<open>t + d\<close>. Go errors are their messages.
\<close>

type_synonym Time = int
type_synonym Duration = int

definition After :: "Time \<Rightarrow> Time \<Rightarrow> bool" where
  "After t u = (u < t)"

definition Add :: "Time \<Rightarrow> Duration \<Rightarrow> Time" where
  "Add t d = t + d"

record SessionInfo =
  Path :: string
  ExpiresAt :: Time
  LastAccess :: Time

text \<open>
  The map holds pointers to \<^verbatim>\<open>SessionInfo\<close>; every entry has an object of its own, so
  the map from keys to the objects' contents carries the same information. The mutex is
  held for the whole of each method: a method is one atomic function on the manager.
\<close>

record SessionManager =
  sessions :: "string \<rightharpoonup> SessionInfo"
  rootDir :: string
  expiration :: Duration
  cleanupFreq :: Duration

text \<open>
  \<^verbatim>\<open>CreateDatabase\<close>: the generated session id, \<^verbatim>\<open>filepath.Join\<close>, the outcome of
  touching the database file (the error of \<^verbatim>\<open>sql.Open\<close> or of \<^verbatim>\<open>db.Exec\<close>, if any) and
  the clock reading are inputs.
\<close>

definition CreateDatabase ::
  "string \<Rightarrow> (string \<Rightarrow> string \<Rightarrow> string) \<Rightarrow> string option \<Rightarrow> Time \<Rightarrow> SessionManager
     \<Rightarrow> (string + string) \<times> SessionManager" where
  "CreateDatabase sessionID Join touchErr now m =
     (let dbPath = Join (rootDir m) (sessionID @ ''.db'') in
      case touchErr of
        Some err \<Rightarrow> (Inl err, m)
      | None \<Rightarrow>
          (Inr sessionID,
           m\<lparr>sessions := (sessions m)(sessionID \<mapsto>
                \<lparr>Path = dbPath, ExpiresAt = Add now (expiration m), LastAccess = now\<rparr>)\<rparr>))"

text \<open>
  \<^verbatim>\<open>GetDB\<close>: \<open>sqlOpen\<close> is \<^verbatim>\<open>sql.Open("sqlite3", path)\<close>, giving its error or the handle,
  and \<open>now\<close> is the reading of \<^verbatim>\<open>time.Now()\<close>. The session is renewed before the
  database is opened.
\<close>

definition GetDB ::
  "(string \<Rightarrow> string + 'db) \<Rightarrow> Time \<Rightarrow> string \<Rightarrow> SessionManager \<Rightarrow> (string + 'db) \<times> SessionManager" where
  "GetDB sqlOpen now sessionID m =
     (case sessions m sessionID of
        None \<Rightarrow> (Inl ''invalid session'', m)
      | Some info \<Rightarrow>
          if After now (ExpiresAt info)
          then (Inl ''session expired'', m\<lparr>sessions := (sessions m)(sessionID := None)\<rparr>)
          else
            (let info' = info\<lparr>LastAccess := now, ExpiresAt := Add now (expiration m)\<rparr>;
                 m' = m\<lparr>sessions := (sessions m)(sessionID \<mapsto> info')\<rparr>
             in case sqlOpen (Path info') of
                  Inl err \<Rightarrow> (Inl (''failed to open sqlite db: '' @ err), m')
                | Inr db \<Rightarrow> (Inr db, m')))"

text \<open>
  \<^verbatim>\<open>database/sql\<close> and the driver are not part of the repository. What they do here:
  \<^verbatim>\<open>sql.Open("sqlite3", path)\<close> looks the driver up, which the package's import has
  registered, and returns a handle that records the data source; it makes no connection
  and does not touch the file, so it returns no error. The driver opens the file when
  the handle is first used (\<^verbatim>\<open>Ping\<close>, \<^verbatim>\<open>Exec\<close>, \<^verbatim>\<open>Query\<close>): \<open>firstUse\<close> gives the error
  of that first use, if any, from the set of the files that can be opened.
\<close>

record DB =
  dataSourceName :: string

definition sql_Open :: "string \<Rightarrow> string + DB" where
  "sql_Open path = Inr \<lparr>dataSourceName = path\<rparr>"


text \<open>
  \<^verbatim>\<open>cleanupExpired\<close>: every entry whose deadline has passed is deleted from the map
  (its file is handed to \<^verbatim>\<open>os.Remove\<close>; the file system is not part of the manager).
\<close>

definition cleanupExpired :: "Time \<Rightarrow> SessionManager \<Rightarrow> SessionManager" where
  "cleanupExpired now m =
     m\<lparr>sessions := (\<lambda>k. case sessions m k of
                           None \<Rightarrow> None
                         | Some info \<Rightarrow> if After now (ExpiresAt info) then None else Some info)\<rparr>"

text \<open>
  A run of accesses to one session: each access has its own clock reading and its own
  outcome of opening the file. The results come back in order, with the final manager.
\<close>

fun GetDBs ::
  "(Time \<times> (string \<Rightarrow> string + 'db)) list \<Rightarrow> string \<Rightarrow> SessionManager
     \<Rightarrow> (string + 'db) list \<times> SessionManager" where
  "GetDBs [] sessionID m = ([], m)"
| "GetDBs ((now, sqlOpen) # rest) sessionID m =
     (let (r, m') = GetDB sqlOpen now sessionID m;
          (rs, m'') = GetDBs rest sessionID m'
      in (r # rs, m''))"

text \<open>
  Every access of the run is made no later than the deadline current at that moment:
  the deadline \<open>e\<close> on entry, and the renewed one after each access.
\<close>

fun inTime :: "Time \<Rightarrow> Duration \<Rightarrow> Time list \<Rightarrow> bool" where
  "inTime e ttl [] = True"
| "inTime e ttl (now # rest) = (now \<le> e \<and> inTime (Add now ttl) ttl rest)"

text \<open>
  The manager of the examples: one session, key \<open>k\<close>, deadline 100, TTL 50; and an
  opener that succeeds with handle 7.
\<close>

definition m0 :: SessionManager where
  "m0 = \<lparr>sessions = [''k'' \<mapsto> \<lparr>Path = ''/tmp/k.db'', ExpiresAt = 100, LastAccess = 50\<rparr>],
         rootDir = ''/tmp'', expiration = 50, cleanupFreq = 60000000000\<rparr>"

definition openOk :: "string \<Rightarrow> string + nat" where
  "openOk path = Inr 7"

section \<open>MCP values\<close>

text \<open>
  Tool arguments are a JSON object (\<^verbatim>\<open>map[string]any\<close>); of the values only the kind
  matters to the code below. A \<^verbatim>\<open>*mcp.CallToolResult\<close> is a pointer: \<open>None\<close> is nil.
  The constructors are those of the mcp package that the servers call.
\<close>

datatype json = JNull | JBool bool | JNumber int | JString string

record CallToolRequest =
  Name :: string
  Arguments :: "string \<rightharpoonup> json"

record CallToolResult =
  Content :: "string list"
  StructuredContent :: "(string \<times> string) list option"
  IsError :: bool

definition NewToolResultText :: "string \<Rightarrow> CallToolResult" where
  "NewToolResultText text = \<lparr>Content = [text], StructuredContent = None, IsError = False\<rparr>"

definition NewToolResultError :: "string \<Rightarrow> CallToolResult" where
  "NewToolResultError text = \<lparr>Content = [text], StructuredContent = None, IsError = True\<rparr>"

definition NewToolResultErrorFromErr :: "string \<Rightarrow> string \<Rightarrow> CallToolResult" where
  "NewToolResultErrorFromErr text err = NewToolResultError (text @ '': '' @ err)"

definition NewToolResultStructured :: "(string \<times> string) list \<Rightarrow> string \<Rightarrow> CallToolResult" where
  "NewToolResultStructured structured fallbackText =
     \<lparr>Content = [fallbackText], StructuredContent = Some structured, IsError = False\<rparr>"

definition quote :: "string \<Rightarrow> string" where
  "quote s = [CHR 0x22] @ s @ [CHR 0x22]"

definition RequireString :: "CallToolRequest \<Rightarrow> string \<Rightarrow> string + string" where
  "RequireString r key =
     (case Arguments r key of
        None \<Rightarrow> Inl (''required argument '' @ quote key @ '' not found'')
      | Some (JString str) \<Rightarrow> Inr str
      | Some _ \<Rightarrow> Inl (''argument '' @ quote key @ '' is not a string''))"

text \<open>Decimal formatting: \<^verbatim>\<open>fmt.Sprintf("%d", n)\<close> and \<^verbatim>\<open>strconv.FormatInt(n, 10)\<close>.\<close>

definition digit :: "nat \<Rightarrow> char" where
  "digit n = ''0123456789'' ! n"

fun Sprintf_d :: "nat \<Rightarrow> string" where
  "Sprintf_d n = (if n < 10 then [digit n] else Sprintf_d (n div 10) @ [digit (n mod 10)])"

declare Sprintf_d.simps [simp del]

definition FormatInt :: "int \<Rightarrow> string" where
  "FormatInt i = (if i < 0 then CHR ''-'' # Sprintf_d (nat (- i)) else Sprintf_d (nat i))"

section \<open>The task engine (both proxies carry the same copy)\<close>

text \<open>
  \<^verbatim>\<open>LongRunningTaskStatus\<close> is an \<^verbatim>\<open>int\<close> with the constants \<^verbatim>\<open>Pending = iota\<close> and
  \<^verbatim>\<open>Done\<close>. The task's mutex guards each read and each write of its fields, so a read
  or a write is one atomic step.
\<close>

definition Pending :: int where
  "Pending = 0"

definition Done :: int where
  "Done = 1"

definition String_status :: "int \<Rightarrow> string" where
  "String_status s =
     (if s = Pending then ''Pending'' else if s = Done then ''Done'' else FormatInt s)"

record LongRunningTask =
  ID :: string
  status :: int
  result :: "CallToolResult option"

text \<open>
  The function values handed to \<^verbatim>\<open>Run\<close> are the two closures of the repository: the
  one of the long-running-task proxy, which forwards the request, and the one of the
  consent proxy, which queues the request and waits. Each captures the request and the
  context of the call (contexts are numbered).
\<close>

datatype work = ForwardWork CallToolRequest nat | ConsentWork CallToolRequest nat

text \<open>
  The goroutine that \<^verbatim>\<open>Run\<close> starts for a task, by program point: started and about to
  enter \<open>f\<close>; inside the consent closure's \<^verbatim>\<open>select\<close> (with its context); \<open>f\<close> has
  returned \<open>out\<close> and the goroutine is about to lock the task; finished.
\<close>

datatype goroutine =
    G_None
  | G_Start work
  | G_Select nat
  | G_Return CallToolResult
  | G_Exit

text \<open>
  An entry of the consent proxy's queue. The Go \<^verbatim>\<open>int\<close> is 64 bits wide and wraps. The
  response channel is made by the goroutine that registers the call and by no other, so
  it is named by the address of that goroutine's task.
\<close>

record pendingCall =
  CallID :: "64 word"
  Request :: CallToolRequest
  ResponseC :: nat

text \<open>
  An HTTP request to \<^verbatim>\<open>/approve\<close> or \<^verbatim>\<open>/reject\<close>, by program point: arrived, with the
  flag and the \<^verbatim>\<open>id\<close> parameter; past the critical section with an approved call, about
  to forward it; blocked sending on the entry's channel; answered.
\<close>

datatype http_response = HttpError string nat | HttpRedirect string nat

datatype handler =
    H_None
  | H_Start bool string
  | H_Forward pendingCall
  | H_Send nat CallToolResult
  | H_Replied http_response

text \<open>
  The process state. Task objects live at addresses, numbered in the order of their
  allocation; \<^verbatim>\<open>longRunningTasks\<close> maps an id to the address it was stored with. The
  upstream MCP server is a state of its own, of a type left open.
\<close>

record 'u server =
  tasks :: "nat \<Rightarrow> LongRunningTask"
  goroutines :: "nat \<Rightarrow> goroutine"
  allocated :: nat
  longRunningTasks :: "string \<rightharpoonup> nat"
  nextID :: "64 word"
  callQueue :: "64 word \<rightharpoonup> pendingCall"
  nextCallID :: "64 word"
  handlers :: "nat \<Rightarrow> handler"
  served :: nat
  cancelled :: "nat set"
  upstream :: 'u

definition init :: "'u \<Rightarrow> 'u server" where
  "init u =
     \<lparr>tasks = (\<lambda>a. \<lparr>ID = [], status = Pending, result = None\<rparr>),
      goroutines = (\<lambda>a. G_None), allocated = 0,
      longRunningTasks = Map.empty, nextID = 0,
      callQueue = Map.empty, nextCallID = 1,
      handlers = (\<lambda>h. H_None), served = 0,
      cancelled = {}, upstream = u\<rparr>"

text \<open>
  What the servers take from outside the repository: the upstream client
  (\<^verbatim>\<open>mcpClient.CallTool\<close> gives an error, or a result that is not nil), \<^verbatim>\<open>strconv.Atoi\<close>,
  the CEL library, and the two configuration files as they were read at start-up.
\<close>

datatype cel_outcome =
    EnvError string
  | CompileError string
  | ProgramError string
  | EvalError string
  | NotBool string
  | BoolValue bool

record MethodConfig =
  MethodName :: string
  Enabled :: bool

record 'u env =
  CallTool :: "CallToolRequest \<Rightarrow> 'u \<Rightarrow> (string + CallToolResult) \<times> 'u"
  Atoi :: "string \<Rightarrow> 64 word option"
  cel :: "string \<Rightarrow> (string \<rightharpoonup> json) \<Rightarrow> cel_outcome"
  configs :: "MethodConfig list"
  constraints :: "string \<rightharpoonup> string"

text \<open>
  \<^verbatim>\<open>Run\<close> draws the next id, allocates the task and starts its goroutine;
  \<^verbatim>\<open>startLongRunningTask\<close> stores the task under its id and answers with the id.
\<close>

definition Run :: "work \<Rightarrow> 'u server \<Rightarrow> nat \<times> 'u server" where
  "Run f s =
     (let n = nextID s + 1;
          a = allocated s;
          t = \<lparr>ID = Sprintf_d (unat n), status = Pending, result = None\<rparr>
      in (a, s\<lparr>nextID := n, tasks := (tasks s)(a := t),
                goroutines := (goroutines s)(a := G_Start f), allocated := Suc a\<rparr>))"

definition startLongRunningTask :: "work \<Rightarrow> 'u server \<Rightarrow> CallToolResult \<times> 'u server" where
  "startLongRunningTask f s =
     (let (a, s1) = Run f s;
          t = tasks s1 a;
          s2 = s1\<lparr>longRunningTasks := (longRunningTasks s1)(ID t \<mapsto> a)\<rparr>
      in (NewToolResultStructured [(''long_running_task_id'', ID t)]
            (''Started long running task with ID: '' @ ID t), s2))"

text \<open>The last step of the goroutine: under the task's lock, \<open>status\<close> and \<open>result\<close>.\<close>

definition finish :: "nat \<Rightarrow> CallToolResult \<Rightarrow> 'u server \<Rightarrow> 'u server" where
  "finish a out s = s\<lparr>tasks := (tasks s)(a := (tasks s a)\<lparr>status := Done, result := Some out\<rparr>),
                       goroutines := (goroutines s)(a := G_Exit)\<rparr>"

text \<open>
  \<^verbatim>\<open>checkLongRunningTaskHandler\<close> reads the state and changes nothing. It returns the
  result pointer with the time it slept before returning (nanoseconds), or panics.
\<close>

definition Second :: Duration where
  "Second = 1000000000"

datatype check_outcome = Returned "CallToolResult option" Duration | Panicked string

definition checkLongRunningTaskHandler :: "CallToolRequest \<Rightarrow> 'u server \<Rightarrow> check_outcome" where
  "checkLongRunningTaskHandler r s =
     (case RequireString r ''id'' of
        Inl err \<Rightarrow> Returned (Some (NewToolResultErrorFromErr ''missing required argument'' err)) 0
      | Inr tid \<Rightarrow>
          (case longRunningTasks s tid of
             None \<Rightarrow> Returned (Some (NewToolResultError (''unknown task ID '' @ tid))) 0
           | Some a \<Rightarrow>
               (let t = tasks s a in
                if status t = Pending
                then Returned (Some (NewToolResultText (''Task '' @ tid @ '' is pending'')))
                       (3 * Second)
                else if status t = Done then Returned (result t) 0
                else Panicked (''unknown task status: '' @ String_status (status t)))))"

section \<open>The long-running-task proxy (long\_running\_tasks\_mcp)\<close>

text \<open>
  \<^verbatim>\<open>loadConfig\<close> indexes the configuration entries by method name, a later entry
  replacing an earlier one of the same name. \<^verbatim>\<open>main\<close> puts the name of every enabled
  entry of that map into \<^verbatim>\<open>lroMethods\<close>; an entry's name is its key.
\<close>

definition loadConfig :: "MethodConfig list \<Rightarrow> (string \<rightharpoonup> MethodConfig)" where
  "loadConfig cs = foldl (\<lambda>m c. m(MethodName c \<mapsto> c)) Map.empty cs"

definition lroMethods :: "MethodConfig list \<Rightarrow> string \<Rightarrow> bool" where
  "lroMethods cs name =
     (case loadConfig cs name of None \<Rightarrow> False | Some c \<Rightarrow> Enabled c \<and> MethodName c = name)"

text \<open>
  A handler returns the Go pair \<^verbatim>\<open>(*mcp.CallToolResult, error)\<close>. The handler that
  \<^verbatim>\<open>main\<close> registers for the upstream tool \<open>tName\<close>:
\<close>

type_synonym reply = "CallToolResult option \<times> string option"

definition forward :: "'u env \<Rightarrow> string \<Rightarrow> CallToolRequest \<Rightarrow> 'u \<Rightarrow> CallToolResult \<times> 'u" where
  "forward env prefix req u =
     (case CallTool env req u of
        (Inl err, u') \<Rightarrow> (NewToolResultError (prefix @ err), u')
      | (Inr res, u') \<Rightarrow> (res, u'))"

definition passthroughHandler ::
  "'u env \<Rightarrow> string \<Rightarrow> nat \<Rightarrow> CallToolRequest \<Rightarrow> 'u server \<Rightarrow> reply \<times> 'u server" where
  "passthroughHandler env tName ctx req s =
     (if \<not> lroMethods (configs env) tName
      then (let (res, u') = forward env ''forward error: '' req (upstream s)
            in ((Some res, None), s\<lparr>upstream := u'\<rparr>))
      else (let (res, s') = startLongRunningTask (ForwardWork req ctx) s
            in ((Some res, None), s')))"


section \<open>The consent proxy (human\_in\_the\_loop\_wrapper)\<close>

definition evalConstraint ::
  "(string \<Rightarrow> (string \<rightharpoonup> json) \<Rightarrow> cel_outcome) \<Rightarrow> string \<Rightarrow> (string \<rightharpoonup> json)
     \<Rightarrow> bool \<times> string option" where
  "evalConstraint celLib constraintExpr args =
     (if constraintExpr = [] then (True, None)
      else case celLib constraintExpr args of
             EnvError e \<Rightarrow> (False, Some (''failed to create CEL env: '' @ e))
           | CompileError e \<Rightarrow> (False, Some (''failed to compile CEL: '' @ e))
           | ProgramError e \<Rightarrow> (False, Some (''failed to create CEL program: '' @ e))
           | EvalError e \<Rightarrow> (False, Some (''failed to evaluate CEL expression: '' @ e))
           | NotBool ty \<Rightarrow> (False, Some (''CEL constraint did not return a boolean: got '' @ ty))
           | BoolValue boolVal \<Rightarrow> (boolVal, None))"

definition consentProxyHandler ::
  "'u env \<Rightarrow> nat \<Rightarrow> CallToolRequest \<Rightarrow> string \<Rightarrow> string \<Rightarrow> 'u server \<Rightarrow> reply \<times> 'u server" where
  "consentProxyHandler env ctx req toolName constraintExpr s =
     (case evalConstraint (cel env) constraintExpr (Arguments req) of
        (ok, Some err) \<Rightarrow>
          ((Some (NewToolResultError (''constraint failed to evaluate: '' @ err)), None), s)
      | (ok, None) \<Rightarrow>
          if \<not> ok then ((Some (NewToolResultError ''constraint returned false''), None), s)
          else (let (res, s') = startLongRunningTask (ConsentWork req ctx) s
                in ((Some res, None), s')))"

text \<open>
  \<^verbatim>\<open>main\<close> registers every upstream tool with the constraint \<^verbatim>\<open>constraints[t.Name]\<close>:
  the empty string when the map has no such key (or no constraints file was given).
\<close>

definition constraintOf :: "(string \<rightharpoonup> string) \<Rightarrow> string \<Rightarrow> string" where
  "constraintOf cs name = (case cs name of None \<Rightarrow> [] | Some expr \<Rightarrow> expr)"

definition proxyTool ::
  "'u env \<Rightarrow> string \<Rightarrow> nat \<Rightarrow> CallToolRequest \<Rightarrow> 'u server \<Rightarrow> reply \<times> 'u server" where
  "proxyTool env tName ctx req s =
     consentProxyHandler env ctx req tName (constraintOf (constraints env) tName) s"

text \<open>
  The critical section of the consent closure (under \<^verbatim>\<open>callQueueLock\<close>): draw the
  next call id and put the entry into the queue. The goroutine then waits in \<^verbatim>\<open>select\<close>.
\<close>

definition enqueue :: "nat \<Rightarrow> CallToolRequest \<Rightarrow> nat \<Rightarrow> 'u server \<Rightarrow> 'u server" where
  "enqueue a req ctx s =
     (let cid = nextCallID s;
          pc = \<lparr>CallID = cid, Request = req, ResponseC = a\<rparr>
      in s\<lparr>nextCallID := cid + 1, callQueue := (callQueue s)(cid \<mapsto> pc),
           goroutines := (goroutines s)(a := G_Select ctx)\<rparr>)"

text \<open>
  The critical section of \<^verbatim>\<open>handleApproval\<close> (under \<^verbatim>\<open>callQueueLock\<close>): read the
  entry and delete the key.
\<close>

definition lookupAndDelete :: "64 word \<Rightarrow> 'u server \<Rightarrow> pendingCall option \<times> 'u server" where
  "lookupAndDelete cid s = (callQueue s cid, s\<lparr>callQueue := (callQueue s)(cid := None)\<rparr>)"

text \<open>
  \<^verbatim>\<open>handleApproval(approve)\<close> from the arrival of the request to the point where it
  either answers or holds an entry it took out of the queue.
\<close>

definition handleApproval :: "'u env \<Rightarrow> bool \<Rightarrow> string \<Rightarrow> 'u server \<Rightarrow> handler \<times> 'u server" where
  "handleApproval env approve idStr s =
     (case Atoi env idStr of
        None \<Rightarrow> (H_Replied (HttpError ''Invalid ID'' 400), s)
      | Some cid \<Rightarrow>
          (let (pc, s') = lookupAndDelete cid s in
           case pc of
             None \<Rightarrow> (H_Replied (HttpError ''Not found'' 404), s')
           | Some p \<Rightarrow>
               if approve then (H_Forward p, s')
               else (H_Send (ResponseC p) (NewToolResultError ''User rejected the request''), s')))"

section \<open>Interleavings\<close>

text \<open>
  The servers are concurrent: tool calls, the goroutines of the tasks and the HTTP
  handlers interleave. An event is one atomic step of one of them: a whole handler call
  where the handler does not block, and otherwise the stretch of code up to the next
  point where the thread takes a lock, calls upstream or waits on a channel. The
  transition system has the events of both proxies; a run of one proxy uses its own
  tool-call event and never the other's.

  \<^item> \<open>ToolCall\<close>, \<open>ConsentCall\<close>: a tool call arrives at the long-running-task proxy,
    at the consent proxy; \<open>CheckTask\<close>: a call of \<^verbatim>\<open>check_long_running_task\<close>.
  \<^item> \<open>Cancel\<close>: the context of a call is cancelled.
  \<^item> \<open>Forwarded\<close>: the goroutine of a forwarding closure gets the answer of upstream.
  \<^item> \<open>Enqueue\<close>: the goroutine of a consent closure runs its critical section.
  \<^item> \<open>CtxDone\<close>: its \<^verbatim>\<open>select\<close> takes the branch of \<^verbatim>\<open>ctx.Done()\<close>.
  \<^item> \<open>Finish\<close>: a goroutine writes \<open>status\<close> and \<open>result\<close> under the task's lock.
  \<^item> \<open>HttpRequest\<close>: a request to \<^verbatim>\<open>/approve\<close> (\<open>True\<close>) or \<^verbatim>\<open>/reject\<close> arrives.
  \<^item> \<open>Locked\<close>: that handler parses the id and runs its critical section.
  \<^item> \<open>Forward\<close>: it gets the answer of upstream for the approved call.
  \<^item> \<open>Deliver\<close>: its send on the unbuffered channel meets the receive of the waiting
    goroutine; the handler answers with the redirect.

  An event that is not enabled in a state gives \<open>None\<close>.
\<close>

datatype event =
    ToolCall string nat CallToolRequest
  | ConsentCall string nat CallToolRequest
  | CheckTask CallToolRequest
  | Cancel nat
  | Forwarded nat
  | Enqueue nat
  | CtxDone nat
  | Finish nat
  | HttpRequest bool string
  | Locked nat
  | Forward nat
  | Deliver nat

fun fire :: "'u env \<Rightarrow> event \<Rightarrow> 'u server \<Rightarrow> 'u server option" where
  "fire env (ToolCall tName ctx req) s = Some (snd (passthroughHandler env tName ctx req s))"
| "fire env (ConsentCall tName ctx req) s = Some (snd (proxyTool env tName ctx req s))"
| "fire env (CheckTask r) s =
     (case checkLongRunningTaskHandler r s of
        Returned res d \<Rightarrow> Some s
      | Panicked msg \<Rightarrow> None)"
| "fire env (Cancel ctx) s = Some (s\<lparr>cancelled := insert ctx (cancelled s)\<rparr>)"
| "fire env (Forwarded a) s =
     (case goroutines s a of
        G_Start (ForwardWork req ctx) \<Rightarrow>
          (let (out, u') = forward env ''forward error: '' req (upstream s)
           in Some (s\<lparr>upstream := u', goroutines := (goroutines s)(a := G_Return out)\<rparr>))
      | _ \<Rightarrow> None)"
| "fire env (Enqueue a) s =
     (case goroutines s a of
        G_Start (ConsentWork req ctx) \<Rightarrow> Some (enqueue a req ctx s)
      | _ \<Rightarrow> None)"
| "fire env (CtxDone a) s =
     (case goroutines s a of
        G_Select ctx \<Rightarrow>
          if ctx \<in> cancelled s
          then Some (s\<lparr>goroutines := (goroutines s)
                  (a := G_Return (NewToolResultError ''Cancelled while waiting for approval''))\<rparr>)
          else None
      | _ \<Rightarrow> None)"
| "fire env (Finish a) s =
     (case goroutines s a of
        G_Return out \<Rightarrow> Some (finish a out s)
      | _ \<Rightarrow> None)"
| "fire env (HttpRequest approve idStr) s =
     Some (s\<lparr>handlers := (handlers s)(served s := H_Start approve idStr),
             served := Suc (served s)\<rparr>)"
| "fire env (Locked h) s =
     (case handlers s h of
        H_Start approve idStr \<Rightarrow>
          (let (hs, s') = handleApproval env approve idStr s
           in Some (s'\<lparr>handlers := (handlers s')(h := hs)\<rparr>))
      | _ \<Rightarrow> None)"
| "fire env (Forward h) s =
     (case handlers s h of
        H_Forward pc \<Rightarrow>
          (let (out, u') = forward env ''Forward error: '' (Request pc) (upstream s)
           in Some (s\<lparr>upstream := u',
                      handlers := (handlers s)(h := H_Send (ResponseC pc) out)\<rparr>))
      | _ \<Rightarrow> None)"
| "fire env (Deliver h) s =
     (case handlers s h of
        H_Send c v \<Rightarrow>
          (case goroutines s c of
             G_Select ctx \<Rightarrow>
               Some (s\<lparr>goroutines := (goroutines s)(c := G_Return v),
                       handlers := (handlers s)(h := H_Replied (HttpRedirect ''/'' 302))\<rparr>)
           | _ \<Rightarrow> None)
      | _ \<Rightarrow> None)"

fun run :: "'u env \<Rightarrow> event list \<Rightarrow> 'u server \<Rightarrow> 'u server option" where
  "run env [] s = Some s"
| "run env (e # es) s = (case fire env e s of None \<Rightarrow> None | Some s' \<Rightarrow> run env es s')"

section \<open>Invariants and counts\<close>

text \<open>
  What holds of a task object and its goroutine in every reachable state: an allocated
  task is Pending or Done, has a result exactly when it is Done, and is Done exactly when
  its goroutine has finished; beyond the allocated addresses there is no goroutine.
\<close>

definition task_ok :: "'u server \<Rightarrow> nat \<Rightarrow> bool" where
  "task_ok s a =
     (if a < allocated s
      then (status (tasks s a) = Pending \<or> status (tasks s a) = Done)
         \<and> (result (tasks s a) \<noteq> None \<longleftrightarrow> status (tasks s a) = Done)
         \<and> (goroutines s a = G_Exit \<longleftrightarrow> status (tasks s a) = Done)
         \<and> goroutines s a \<noteq> G_None
      else goroutines s a = G_None)"

definition isDone :: "'u server \<Rightarrow> nat \<Rightarrow> bool" where
  "isDone s a = (a < allocated s \<and> status (tasks s a) = Done)"

text \<open>
  The channel of a pending call is in one place at a time: in an entry of the queue, or
  with one approval handler that took the entry out and has not yet delivered. \<open>holds\<close>
  says that a handler is past its critical section with the entry of channel \<open>c\<close>.
\<close>

fun past_start :: "goroutine \<Rightarrow> bool" where
  "past_start G_None = False"
| "past_start (G_Start w) = False"
| "past_start g = True"

fun holds :: "handler \<Rightarrow> nat \<Rightarrow> bool" where
  "holds (H_Forward pc) c = (ResponseC pc = c)"
| "holds (H_Send c' v) c = (c' = c)"
| "holds h c = False"

definition chan_inv :: "'u server \<Rightarrow> bool" where
  "chan_inv s =
     ((\<forall>k pc. callQueue s k = Some pc \<longrightarrow> past_start (goroutines s (ResponseC pc)))
    \<and> (\<forall>h c. holds (handlers s h) c \<longrightarrow> past_start (goroutines s c))
    \<and> (\<forall>k k' pc pc'. callQueue s k = Some pc \<longrightarrow> callQueue s k' = Some pc' \<longrightarrow>
          ResponseC pc = ResponseC pc' \<longrightarrow> k = k')
    \<and> (\<forall>h k pc. callQueue s k = Some pc \<longrightarrow> \<not> holds (handlers s h) (ResponseC pc))
    \<and> (\<forall>h h' c. holds (handlers s h) c \<longrightarrow> holds (handlers s h') c \<longrightarrow> h = h')
    \<and> (\<forall>a. allocated s \<le> a \<longrightarrow> goroutines s a = G_None))"

text \<open>
  Counting along a run: the events at which an approval handler finds the entry of the
  call id \<open>cid\<close> in the queue (a decision for \<open>cid\<close> succeeds, whether approve or
  reject), and the events at which a call is registered under \<open>cid\<close>.
\<close>

definition decides :: "'u env \<Rightarrow> 64 word \<Rightarrow> event \<Rightarrow> 'u server \<Rightarrow> bool" where
  "decides env cid e s =
     (case e of
        Locked h \<Rightarrow>
          (case handlers s h of
             H_Start approve idStr \<Rightarrow> Atoi env idStr = Some cid \<and> callQueue s cid \<noteq> None
           | _ \<Rightarrow> False)
      | _ \<Rightarrow> False)"

definition registers :: "64 word \<Rightarrow> event \<Rightarrow> 'u server \<Rightarrow> bool" where
  "registers cid e s =
     (case e of
        Enqueue a \<Rightarrow>
          (case goroutines s a of
             G_Start (ConsentWork req ctx) \<Rightarrow> nextCallID s = cid
           | _ \<Rightarrow> False)
      | _ \<Rightarrow> False)"

fun tally :: "(event \<Rightarrow> 'u server \<Rightarrow> bool) \<Rightarrow> 'u env \<Rightarrow> event list \<Rightarrow> 'u server \<Rightarrow> nat" where
  "tally P env [] s = 0"
| "tally P env (e # es) s =
     (case fire env e s of
        None \<Rightarrow> 0
      | Some s' \<Rightarrow> (if P e s then 1 else 0) + tally P env es s')"

text \<open>
  The same count by pending call instead of by call id: the events at which an approval
  handler takes the entry with the channel \<open>c\<close> out of the queue. A channel is spent
  when its goroutine has registered its entry and the entry is no longer in the queue.
\<close>

definition takes :: "'u env \<Rightarrow> nat \<Rightarrow> event \<Rightarrow> 'u server \<Rightarrow> bool" where
  "takes env c e s =
     (case e of
        Locked h \<Rightarrow>
          (case handlers s h of
             H_Start approve idStr \<Rightarrow>
               (case Atoi env idStr of
                  None \<Rightarrow> False
                | Some cid \<Rightarrow>
                    (case callQueue s cid of None \<Rightarrow> False | Some pc \<Rightarrow> ResponseC pc = c))
           | _ \<Rightarrow> False)
      | _ \<Rightarrow> False)"

definition spent :: "'u server \<Rightarrow> nat \<Rightarrow> bool" where
  "spent s c =
     (past_start (goroutines s c) \<and> (\<forall>k pc. callQueue s k = Some pc \<longrightarrow> ResponseC pc \<noteq> c))"

section \<open>Examples\<close>

text \<open>
  The configuration of the examples. Upstream counts the calls it has served; it fails on
  the tool \<open>broken\<close> and answers \<open>ok\<close> otherwise. The tools \<open>slow\<close> and \<open>fast\<close> are
  configured, \<open>slow\<close> enabled; \<open>add_task\<close> has the constraint of the README.
\<close>

definition env0 :: "nat env" where
  "env0 = \<lparr>CallTool = (\<lambda>req u. if Name req = ''broken'' then (Inl ''boom'', Suc u)
                                  else (Inr (NewToolResultText ''ok''), Suc u)),
           Atoi = (\<lambda>str. if str = ''1'' then Some 1 else if str = ''2'' then Some 2 else None),
           cel = (\<lambda>expr args. if expr = ''args.description.size() > 3''
                    then (case args ''description'' of
                            Some (JString d) \<Rightarrow> BoolValue (3 < length d)
                          | _ \<Rightarrow> EvalError ''no such key: description'')
                    else CompileError ''syntax error''),
           configs = [\<lparr>MethodName = ''slow'', Enabled = True\<rparr>,
                      \<lparr>MethodName = ''fast'', Enabled = False\<rparr>],
           constraints = [''add_task'' \<mapsto> ''args.description.size() > 3'']\<rparr>"

definition req0 :: "string \<Rightarrow> string \<Rightarrow> CallToolRequest" where
  "req0 tName description =
     \<lparr>Name = tName, Arguments = [''description'' \<mapsto> JString description]\<rparr>"


definition checkReq :: "string \<Rightarrow> CallToolRequest" where
  "checkReq tid = \<lparr>Name = ''check_long_running_task'', Arguments = [''id'' \<mapsto> JString tid]\<rparr>"

text \<open>The state after a run of events from the initial state (which every run here has).\<close>

definition after :: "event list \<Rightarrow> nat server" where
  "after evs = (case run env0 evs (init 0) of None \<Rightarrow> init 0 | Some s \<Rightarrow> s)"

text \<open>
  A run of the consent proxy: a call is queued under the id 1, rejected, and the rejection
  delivered; then the same id is approved.
\<close>

definition evs1 :: "event list" where
  "evs1 = [ConsentCall ''list_tasks'' 0 (req0 ''list_tasks'' ''x''), Enqueue 0,
           HttpRequest False ''1'', Locked 0, Deliver 0, Finish 0,
           HttpRequest True ''1'', Locked 1]"

section \<open>Session manager: properties\<close>

lemma GetDB_unknown:
  "sessions m k = None \<Longrightarrow> GetDB sqlOpen now k m = (Inl ''invalid session'', m)"
  by (simp add: GetDB_def)

lemma GetDB_expired:
  "sessions m k = Some info \<Longrightarrow> ExpiresAt info < now \<Longrightarrow>
   GetDB sqlOpen now k m = (Inl ''session expired'', m\<lparr>sessions := (sessions m)(k := None)\<rparr>)"
  by (simp add: GetDB_def After_def)

lemma GetDB_live:
  "sessions m k = Some info \<Longrightarrow> now \<le> ExpiresAt info \<Longrightarrow>
   GetDB sqlOpen now k m =
     (case sqlOpen (Path info) of
        Inl err \<Rightarrow> Inl (''failed to open sqlite db: '' @ err)
      | Inr db \<Rightarrow> Inr db,
      m\<lparr>sessions := (sessions m)(k \<mapsto> info\<lparr>LastAccess := now, ExpiresAt := now + expiration m\<rparr>)\<rparr>)"
  by (simp add: GetDB_def After_def Add_def Let_def split: sum.splits)

lemma GetDB_expiration: "expiration (snd (GetDB sqlOpen now k m)) = expiration m"
  by (simp add: GetDB_def Let_def split: option.splits sum.splits)

text \<open>
  Claim C2, as the code has it. For a known session key: an access made strictly after
  the deadline (\<open>ExpiresAt < now\<close>) removes the entry from the session map and fails
  with "session expired"; an access made exactly at the deadline is not an expiry: the
  entry stays and is renewed, and the access returns the handle; and whenever an access
  returns a handle, the deadline had not passed (\<open>now \<le> ExpiresAt\<close>), so a session whose
  deadline lies in the past is never returned as valid.
\<close>

theorem GetDB_strict_deadline:
  assumes "sessions m k = Some info"
  shows "(ExpiresAt info < now \<longrightarrow>
            GetDB sqlOpen now k m =
              (Inl ''session expired'', m\<lparr>sessions := (sessions m)(k := None)\<rparr>))
       \<and> (now = ExpiresAt info \<longrightarrow>
            fst (GetDB sqlOpen now k m) \<noteq> Inl ''session expired''
          \<and> sessions (snd (GetDB sqlOpen now k m)) k =
              Some (info\<lparr>LastAccess := now, ExpiresAt := now + expiration m\<rparr>))
       \<and> (\<forall>db. fst (GetDB sqlOpen now k m) = Inr db \<longrightarrow> now \<le> ExpiresAt info)
       \<and> (now = ExpiresAt info \<longrightarrow>
            GetDB sql_Open now k m =
              (Inr \<lparr>dataSourceName = Path info\<rparr>,
               m\<lparr>sessions := (sessions m)(k \<mapsto>
                    info\<lparr>LastAccess := now, ExpiresAt := now + expiration m\<rparr>)\<rparr>))"
  using assms
  by (auto simp: GetDB_def After_def Add_def Let_def sql_Open_def split: sum.splits)

theorem GetDB_strict_deadline_witness:
  "GetDB openOk 101 ''k'' m0 =
     (Inl ''session expired'', m0\<lparr>sessions := (sessions m0)(''k'' := None)\<rparr>)
   \<and> fst (GetDB openOk 60 ''k'' m0) = Inr 7"
proof -
  have k: "sessions m0 ''k'' = Some \<lparr>Path = ''/tmp/k.db'', ExpiresAt = 100, LastAccess = 50\<rparr>"
    by (simp add: m0_def)
  have "GetDB openOk 101 ''k'' m0 =
          (Inl ''session expired'', m0\<lparr>sessions := (sessions m0)(''k'' := None)\<rparr>)"
    using GetDB_strict_deadline [OF k, of 101 openOk] by simp
  moreover have "fst (GetDB openOk 60 ''k'' m0) = Inr 7"
    by (simp add: GetDB_def m0_def After_def Add_def openOk_def)
  ultimately show ?thesis by simp
qed

text \<open>
  Claim C2 as stated fails at \<open>now = ExpiresAt\<close>: the session \<open>k\<close> has deadline 100, the
  access is made at 100 (so \<open>now \<ge> expiresAt\<close>), and it returns the handle and leaves the
  entry in the map, renewed to 150.
\<close>

theorem GetDB_at_deadline_counterexample:
  "sessions m0 ''k'' = Some \<lparr>Path = ''/tmp/k.db'', ExpiresAt = 100, LastAccess = 50\<rparr>
   \<and> (100 :: Time) \<ge> 100
   \<and> fst (GetDB openOk 100 ''k'' m0) = Inr 7
   \<and> sessions (snd (GetDB openOk 100 ''k'' m0)) ''k''
       = Some \<lparr>Path = ''/tmp/k.db'', ExpiresAt = 150, LastAccess = 100\<rparr>"
  by (simp add: GetDB_def m0_def After_def Add_def openOk_def)

lemma GetDBs_results:
  assumes "sessions m k = Some info"
    and "inTime (ExpiresAt info) (expiration m) (map fst accesses)"
  shows "fst (GetDBs accesses k m) =
           map (\<lambda>(now, sqlOpen). case sqlOpen (Path info) of
                   Inl err \<Rightarrow> Inl (''failed to open sqlite db: '' @ err)
                 | Inr db \<Rightarrow> Inr db) accesses
       \<and> sessions (snd (GetDBs accesses k m)) k =
           Some (if accesses = [] then info
                 else info\<lparr>LastAccess := fst (last accesses),
                           ExpiresAt := fst (last accesses) + expiration m\<rparr>)"
  using assms
proof (induction accesses arbitrary: m info)
  case Nil
  then show ?case by simp
next
  case (Cons a accesses)
  obtain now sqlOpen where a: "a = (now, sqlOpen)" by (cases a)
  let ?info' = "info\<lparr>LastAccess := now, ExpiresAt := now + expiration m\<rparr>"
  let ?m' = "snd (GetDB sqlOpen now k m)"
  from Cons.prems a have le: "now \<le> ExpiresAt info" by simp
  have g: "GetDB sqlOpen now k m =
     (case sqlOpen (Path info) of
        Inl err \<Rightarrow> Inl (''failed to open sqlite db: '' @ err)
      | Inr db \<Rightarrow> Inr db,
      m\<lparr>sessions := (sessions m)(k \<mapsto> ?info')\<rparr>)"
    by (rule GetDB_live [OF Cons.prems(1) le])
  have s': "sessions ?m' k = Some ?info'" by (simp add: g)
  have e': "expiration ?m' = expiration m" by (simp add: g)
  have t': "inTime (ExpiresAt ?info') (expiration ?m') (map fst accesses)"
    using Cons.prems(2) a by (simp add: e' Add_def)
  note IH = Cons.IH [OF s' t']
  have step: "GetDBs (a # accesses) k m =
      (fst (GetDB sqlOpen now k m) # fst (GetDBs accesses k ?m'), snd (GetDBs accesses k ?m'))"
    by (simp add: a split: prod.splits)
  show ?case
  proof (cases "accesses = []")
    case True
    then show ?thesis unfolding step using IH by (simp add: g a)
  next
    case False
    then show ?thesis unfolding step using IH by (simp add: g a e')
  qed
qed




text \<open>
  Claim C7. Take a known session and any run of accesses, each made no later than the
  deadline current at that moment (in particular: before it). Then no access fails: each
  returns the handle of the session's database file. Every access sets \<open>LastAccess = now\<close>
  and \<open>ExpiresAt = now + TTL\<close> (so \<open>ExpiresAt \<ge> now + TTL - \<epsilon>\<close> for every \<open>\<epsilon> \<ge> 0\<close>); after
  the run the entry carries the values of the last access.
\<close>

theorem GetDBs_sliding:
  assumes "sessions m k = Some info"
    and "inTime (ExpiresAt info) (expiration m) nows"
  shows "fst (GetDBs (map (\<lambda>now. (now, sql_Open)) nows) k m) =
           map (\<lambda>now. Inr \<lparr>dataSourceName = Path info\<rparr>) nows
       \<and> sessions (snd (GetDBs (map (\<lambda>now. (now, sql_Open)) nows) k m)) k =
           Some (if nows = [] then info
                 else info\<lparr>LastAccess := last nows,
                           ExpiresAt := last nows + expiration m\<rparr>)"
proof -
  let ?accesses = "map (\<lambda>now. (now, sql_Open)) nows"
  have f: "map fst ?accesses = nows" by (simp add: comp_def)
  have t: "inTime (ExpiresAt info) (expiration m) (map fst ?accesses)"
    using assms(2) by (simp only: f)
  note R = GetDBs_results [OF assms(1) t]
  have 1: "fst (GetDBs ?accesses k m) = map (\<lambda>now. Inr \<lparr>dataSourceName = Path info\<rparr>) nows"
    using R [THEN conjunct1] by (simp add: sql_Open_def comp_def)
  have 2: "sessions (snd (GetDBs ?accesses k m)) k =
           Some (if nows = [] then info
                 else info\<lparr>LastAccess := last nows,
                           ExpiresAt := last nows + expiration m\<rparr>)"
    using R [THEN conjunct2] by (cases "nows = []") (simp_all add: last_map)
  show ?thesis using 1 2 by (intro conjI)
qed

theorem GetDBs_sliding_witness:
  "fst (GetDBs [(60, sql_Open), (105, sql_Open), (155, sql_Open)] ''k'' m0) =
     [Inr \<lparr>dataSourceName = ''/tmp/k.db''\<rparr>, Inr \<lparr>dataSourceName = ''/tmp/k.db''\<rparr>,
      Inr \<lparr>dataSourceName = ''/tmp/k.db''\<rparr>]
   \<and> sessions (snd (GetDBs [(60, sql_Open), (105, sql_Open), (155, sql_Open)] ''k'' m0)) ''k'' =
       Some \<lparr>Path = ''/tmp/k.db'', ExpiresAt = 205, LastAccess = 155\<rparr>"
proof -
  have k: "sessions m0 ''k'' = Some \<lparr>Path = ''/tmp/k.db'', ExpiresAt = 100, LastAccess = 50\<rparr>"
    by (simp add: m0_def)
  have t: "inTime (ExpiresAt \<lparr>Path = ''/tmp/k.db'', ExpiresAt = 100, LastAccess = 50\<rparr>)
             (expiration m0) [60, 105, 155]"
    by (simp add: m0_def Add_def)
  show ?thesis
    using GetDBs_sliding [OF k t] by (simp add: m0_def)
qed

section \<open>Task engine and proxies: properties of the handlers\<close>

lemmas example_defs =
  env0_def req0_def after_def init_def
  passthroughHandler_def proxyTool_def consentProxyHandler_def constraintOf_def
  evalConstraint_def lroMethods_def loadConfig_def forward_def
  startLongRunningTask_def Run_def finish_def enqueue_def handleApproval_def
  lookupAndDelete_def checkLongRunningTaskHandler_def RequireString_def
  NewToolResultStructured_def
  Sprintf_d.simps digit_def Let_def Pending_def Done_def

text \<open>The keys of the configuration map are the method names of its entries.\<close>

lemma foldl_config_key:
  assumes "\<And>k c. m k = Some c \<Longrightarrow> MethodName c = k"
    and "foldl (\<lambda>m c. m(MethodName c \<mapsto> c)) m cs k = Some c"
  shows "MethodName c = k"
  using assms
proof (induction cs arbitrary: m)
  case Nil
  then show ?case by simp
next
  case (Cons a cs)
  have "\<And>k c. (m(MethodName a \<mapsto> a)) k = Some c \<Longrightarrow> MethodName c = k"
    using Cons.prems(1) by (simp split: if_splits)
  moreover have "foldl (\<lambda>m c. m(MethodName c \<mapsto> c)) (m(MethodName a \<mapsto> a)) cs k = Some c"
    using Cons.prems(2) by (simp only: foldl_Cons)
  ultimately show ?case by (rule Cons.IH)
qed

lemma loadConfig_key: "loadConfig cs k = Some c \<Longrightarrow> MethodName c = k"
  unfolding loadConfig_def by (rule foldl_config_key [of Map.empty]) simp_all

lemma checks_stutter:
  "status (tasks s a) = Pending \<or> status (tasks s a) = Done \<Longrightarrow>
   longRunningTasks s tid = Some a \<Longrightarrow> RequireString r ''id'' = Inr tid \<Longrightarrow>
   run env (replicate n (CheckTask r)) s = Some s"
  by (induction n) (auto simp: checkLongRunningTaskHandler_def Let_def)

text \<open>
  Claim C3. A call of \<^verbatim>\<open>check_long_running_task\<close> with the id \<open>tid\<close>: when no task is
  stored under \<open>tid\<close> it answers at once with the error result "unknown task ID"; when the
  task stored there is Pending it sleeps 3 seconds and then answers "Task ... is pending";
  when the task is Done it answers at once with the stored result, and the call changes
  nothing: after any number of such calls the state is the same, so each of them returns
  the same result.
\<close>

theorem checkLongRunningTask_cases:
  assumes "RequireString r ''id'' = Inr tid"
  shows "(longRunningTasks s tid = None \<longrightarrow>
            checkLongRunningTaskHandler r s =
              Returned (Some (NewToolResultError (''unknown task ID '' @ tid))) 0)
       \<and> (\<forall>a. longRunningTasks s tid = Some a \<and> status (tasks s a) = Pending \<longrightarrow>
            checkLongRunningTaskHandler r s =
              Returned (Some (NewToolResultText (''Task '' @ tid @ '' is pending''))) (3 * Second))
       \<and> (\<forall>a. longRunningTasks s tid = Some a \<and> status (tasks s a) = Done \<longrightarrow>
            checkLongRunningTaskHandler r s = Returned (result (tasks s a)) 0
          \<and> (\<forall>n. run env (replicate n (CheckTask r)) s = Some s))
       \<and> 3 * Second = 3000000000"
  using assms checks_stutter [of s _ tid r env]
  by (auto simp: checkLongRunningTaskHandler_def Let_def Pending_def Done_def Second_def)

theorem checkLongRunningTask_cases_witness:
  "checkLongRunningTaskHandler (checkReq ''7'') (after [ToolCall ''slow'' 0 (req0 ''slow'' ''x'')])
     = Returned (Some (NewToolResultError ''unknown task ID 7'')) 0
   \<and> checkLongRunningTaskHandler (checkReq ''1'') (after [ToolCall ''slow'' 0 (req0 ''slow'' ''x'')])
     = Returned (Some (NewToolResultText ''Task 1 is pending'')) 3000000000
   \<and> checkLongRunningTaskHandler (checkReq ''1'')
        (after [ToolCall ''slow'' 0 (req0 ''slow'' ''x''), Forwarded 0, Finish 0])
     = Returned (Some (NewToolResultText ''ok'')) 0
   \<and> run env0 [CheckTask (checkReq ''1''), CheckTask (checkReq ''1'')]
        (after [ToolCall ''slow'' 0 (req0 ''slow'' ''x''), Forwarded 0, Finish 0])
     = Some (after [ToolCall ''slow'' 0 (req0 ''slow'' ''x''), Forwarded 0, Finish 0])"
proof -
  let ?p = "after [ToolCall ''slow'' 0 (req0 ''slow'' ''x'')]"
  let ?d = "after [ToolCall ''slow'' 0 (req0 ''slow'' ''x''), Forwarded 0, Finish 0]"
  have r7: "RequireString (checkReq ''7'') ''id'' = Inr ''7''"
    and r1: "RequireString (checkReq ''1'') ''id'' = Inr ''1''"
    by (simp_all add: RequireString_def checkReq_def)
  have p7: "longRunningTasks ?p ''7'' = None"
    and p1: "longRunningTasks ?p ''1'' = Some 0 \<and> status (tasks ?p 0) = Pending"
    by (simp_all add: example_defs)
  have d1: "longRunningTasks ?d ''1'' = Some 0 \<and> status (tasks ?d 0) = Done"
    and dr: "result (tasks ?d 0) = Some (NewToolResultText ''ok'')"
    by (simp_all add: example_defs)
  note T7 = checkLongRunningTask_cases [OF r7, of ?p env0]
  note Tp = checkLongRunningTask_cases [OF r1, of ?p env0]
  note Td = checkLongRunningTask_cases [OF r1, of ?d env0]
  have 1: "checkLongRunningTaskHandler (checkReq ''7'') ?p
             = Returned (Some (NewToolResultError ''unknown task ID 7'')) 0"
    using T7 [THEN conjunct1, THEN mp, OF p7] by simp
  have 2: "checkLongRunningTaskHandler (checkReq ''1'') ?p
             = Returned (Some (NewToolResultText ''Task 1 is pending'')) 3000000000"
    using Tp [THEN conjunct2, THEN conjunct1, THEN spec, THEN mp, OF p1] by (simp add: Second_def)
  note D = Td [THEN conjunct2, THEN conjunct2, THEN conjunct1, THEN spec, THEN mp, OF d1]
  have 3: "checkLongRunningTaskHandler (checkReq ''1'') ?d
             = Returned (Some (NewToolResultText ''ok'')) 0"
    using D [THEN conjunct1] by (simp only: dr)
  have 4: "run env0 [CheckTask (checkReq ''1''), CheckTask (checkReq ''1'')] ?d = Some ?d"
    using D [THEN conjunct2, THEN spec, of 2] by (simp add: numeral_2_eq_2)
  show ?thesis using 1 2 3 4 by (intro conjI)
qed




text \<open>
  Claim C6. When the constraint of an intercepted call evaluates to false, or fails to
  evaluate, \<^verbatim>\<open>consentProxyHandler\<close> returns at once: the error result "constraint returned
  false", or "constraint failed to evaluate: ..." with the error of the evaluation. The
  state it leaves is the state it found: no task is allocated and no task id drawn, no
  goroutine is started (so nothing will enter the queue for this call), and the queue and
  its counter are as before.
\<close>

theorem constraint_failure_is_immediate:
  assumes "evalConstraint (cel env) constraintExpr (Arguments req) = (ok, err)"
    and "err \<noteq> None \<or> \<not> ok"
  shows "consentProxyHandler env ctx req toolName constraintExpr s =
           ((Some (NewToolResultError
                     (case err of
                        Some e \<Rightarrow> ''constraint failed to evaluate: '' @ e
                      | None \<Rightarrow> ''constraint returned false'')), None), s)"
  using assms by (cases err) (auto simp: consentProxyHandler_def)

theorem constraint_failure_is_immediate_witness:
  "consentProxyHandler env0 0 (req0 ''add_task'' ''ab'') ''add_task''
       (constraintOf (constraints env0) ''add_task'') (init 0)
     = ((Some (NewToolResultError ''constraint returned false''), None), init 0)"
proof -
  have e: "evalConstraint (cel env0) (constraintOf (constraints env0) ''add_task'')
             (Arguments (req0 ''add_task'' ''ab'')) = (False, None)"
    by (simp add: evalConstraint_def env0_def constraintOf_def req0_def)
  show ?thesis
    using constraint_failure_is_immediate [OF e, of 0 "''add_task''" "init 0"] by simp
qed

text \<open>
  Claim C10. The empty constraint evaluates to true with no error, whatever the arguments
  and whatever the CEL library would do. So a tool with no entry in the constraints file
  passes the pre-check: its call starts a long-running task whose goroutine runs the
  consent closure, and the first step of that goroutine puts the request into the queue of
  pending calls, under the next call id.
\<close>

theorem evalConstraint_empty:
  "evalConstraint celLib [] args = (True, None)
   \<and> (constraints env tName = None \<longrightarrow>
        proxyTool env tName ctx req s =
          ((Some (fst (startLongRunningTask (ConsentWork req ctx) s)), None),
           snd (startLongRunningTask (ConsentWork req ctx) s))
      \<and> goroutines (snd (proxyTool env tName ctx req s)) (allocated s)
          = G_Start (ConsentWork req ctx)
      \<and> (\<exists>s'. fire env (Enqueue (allocated s)) (snd (proxyTool env tName ctx req s)) = Some s'
              \<and> callQueue s' (nextCallID s) =
                  Some \<lparr>CallID = nextCallID s, Request = req, ResponseC = allocated s\<rparr>))"
  by (simp add: evalConstraint_def proxyTool_def constraintOf_def consentProxyHandler_def
      startLongRunningTask_def Run_def Let_def enqueue_def split: prod.splits)

theorem evalConstraint_empty_witness:
  "constraints env0 ''list_tasks'' = None
   \<and> fst (proxyTool env0 ''list_tasks'' 0 (req0 ''list_tasks'' ''x'') (init 0)) =
       (Some (NewToolResultStructured [(''long_running_task_id'', ''1'')]
                ''Started long running task with ID: 1''), None)
   \<and> goroutines (snd (proxyTool env0 ''list_tasks'' 0 (req0 ''list_tasks'' ''x'') (init 0))) 0
       = G_Start (ConsentWork (req0 ''list_tasks'' ''x'') 0)"
proof -
  let ?s = "init (0::nat)"
  let ?r = "req0 ''list_tasks'' ''x''"
  have c: "constraints env0 ''list_tasks'' = None" by (simp add: env0_def)
  have a: "allocated ?s = 0" by (simp add: init_def)
  have f: "fst (startLongRunningTask (ConsentWork ?r 0) ?s)
        = NewToolResultStructured [(''long_running_task_id'', ''1'')]
                ''Started long running task with ID: 1''"
    by (simp add: startLongRunningTask_def Run_def Let_def init_def Sprintf_d.simps digit_def)
  note T = evalConstraint_empty [of "cel env0" Map.empty env0 "''list_tasks''" 0 ?r ?s,
             THEN conjunct2, THEN mp, OF c]
  have 1: "fst (proxyTool env0 ''list_tasks'' 0 ?r ?s) =
       (Some (NewToolResultStructured [(''long_running_task_id'', ''1'')]
                ''Started long running task with ID: 1''), None)"
    by (simp only: T [THEN conjunct1] fst_conv f)
  have 2: "goroutines (snd (proxyTool env0 ''list_tasks'' 0 ?r ?s)) 0 = G_Start (ConsentWork ?r 0)"
    using T [THEN conjunct2, THEN conjunct1] by (simp only: a)
  show ?thesis using c 1 2 by (intro conjI)
qed

section \<open>Task engine: invariants of the interleavings\<close>

text \<open>What one event does to the state, event by event.\<close>

lemma startLongRunningTask_state:
  "snd (startLongRunningTask f s) =
     s\<lparr>nextID := nextID s + 1,
       tasks := (tasks s)(allocated s :=
                  \<lparr>ID = Sprintf_d (unat (nextID s + 1)), status = Pending, result = None\<rparr>),
       goroutines := (goroutines s)(allocated s := G_Start f),
       allocated := Suc (allocated s),
       longRunningTasks := (longRunningTasks s)(Sprintf_d (unat (nextID s + 1)) \<mapsto> allocated s)\<rparr>"
  by (simp add: startLongRunningTask_def Run_def Let_def)

lemma fireE [consumes 1, case_names ToolCall Upstream ConsentCall Rejected CheckTask Cancel
    Forwarded Enqueue CtxDone Finish HttpRequest Locked Forward Deliver]:
  assumes "fire env e s = Some s'"
  obtains
    (ToolCall) n c r where "e = ToolCall n c r"
      and "s' = snd (startLongRunningTask (ForwardWork r c) s)"
  | (Upstream) n c r u' where "e = ToolCall n c r" and "s' = s\<lparr>upstream := u'\<rparr>"
  | (ConsentCall) n c r where "e = ConsentCall n c r"
      and "s' = snd (startLongRunningTask (ConsentWork r c) s)"
  | (Rejected) n c r where "e = ConsentCall n c r" and "s' = s"
  | (CheckTask) r where "e = CheckTask r" and "s' = s"
  | (Cancel) c where "e = Cancel c" and "s' = s\<lparr>cancelled := insert c (cancelled s)\<rparr>"
  | (Forwarded) a req ctx out u' where "e = Forwarded a"
      and "goroutines s a = G_Start (ForwardWork req ctx)"
      and "s' = s\<lparr>upstream := u', goroutines := (goroutines s)(a := G_Return out)\<rparr>"
  | (Enqueue) a req ctx where "e = Enqueue a"
      and "goroutines s a = G_Start (ConsentWork req ctx)" and "s' = enqueue a req ctx s"
  | (CtxDone) a ctx out where "e = CtxDone a" and "goroutines s a = G_Select ctx"
      and "s' = s\<lparr>goroutines := (goroutines s)(a := G_Return out)\<rparr>"
  | (Finish) a out where "e = Finish a" and "goroutines s a = G_Return out"
      and "s' = finish a out s"
  | (HttpRequest) b str where "e = HttpRequest b str"
      and "s' = s\<lparr>handlers := (handlers s)(served s := H_Start b str), served := Suc (served s)\<rparr>"
  | (Locked) h b str nh q where "e = Locked h" and "handlers s h = H_Start b str"
      and "s' = s\<lparr>callQueue := q, handlers := (handlers s)(h := nh)\<rparr>"
      and "\<forall>k pc. q k = Some pc \<longrightarrow> callQueue s k = Some pc"
  | (Forward) h pc out u' where "e = Forward h" and "handlers s h = H_Forward pc"
      and "s' = s\<lparr>upstream := u', handlers := (handlers s)(h := H_Send (ResponseC pc) out)\<rparr>"
  | (Deliver) h c v ctx where "e = Deliver h" and "handlers s h = H_Send c v"
      and "goroutines s c = G_Select ctx"
      and "s' = s\<lparr>goroutines := (goroutines s)(c := G_Return v),
                    handlers := (handlers s)(h := H_Replied (HttpRedirect ''/'' 302))\<rparr>"
proof (cases e)
  case (ToolCall n c r)
  show ?thesis
  proof (cases "lroMethods (configs env) n")
    case True
    then have "s' = snd (startLongRunningTask (ForwardWork r c) s)"
      using assms ToolCall by (simp add: passthroughHandler_def split: prod.splits)
    then show ?thesis using ToolCall that(1) by blast
  next
    case False
    then have "s' = s\<lparr>upstream := snd (forward env ''forward error: '' r (upstream s))\<rparr>"
      using assms ToolCall by (simp add: passthroughHandler_def split: prod.splits)
    then show ?thesis using ToolCall that(2) by blast
  qed
next
  case (ConsentCall n c r)
  have "s' = s \<or> s' = snd (startLongRunningTask (ConsentWork r c) s)"
    using assms ConsentCall
    by (auto simp: proxyTool_def consentProxyHandler_def split: prod.splits option.splits if_splits)
  then show ?thesis using ConsentCall that(3,4) by blast
next
  case (CheckTask r)
  then have "s' = s" using assms by (simp split: check_outcome.splits)
  then show ?thesis using CheckTask that(5) by blast
next
  case (Cancel c)
  then show ?thesis using assms that(6) by simp
next
  case (Forwarded a)
  then obtain req ctx where "goroutines s a = G_Start (ForwardWork req ctx)"
    and "s' = s\<lparr>upstream := snd (forward env ''forward error: '' req (upstream s)),
                 goroutines := (goroutines s)
                   (a := G_Return (fst (forward env ''forward error: '' req (upstream s))))\<rparr>"
    using assms by (simp split: goroutine.splits work.splits prod.splits)
  then show ?thesis using Forwarded that(7) by blast
next
  case (Enqueue a)
  then obtain req ctx where "goroutines s a = G_Start (ConsentWork req ctx)"
    and "s' = enqueue a req ctx s"
    using assms by (simp split: goroutine.splits work.splits)
  then show ?thesis using Enqueue that(8) by blast
next
  case (CtxDone a)
  then obtain ctx where "goroutines s a = G_Select ctx"
    and "s' = s\<lparr>goroutines := (goroutines s)
                  (a := G_Return (NewToolResultError ''Cancelled while waiting for approval''))\<rparr>"
    using assms by (simp split: goroutine.splits if_splits)
  then show ?thesis using CtxDone that(9) by blast
next
  case (Finish a)
  then obtain out where "goroutines s a = G_Return out" and "s' = finish a out s"
    using assms by (simp split: goroutine.splits)
  then show ?thesis using Finish that(10) by blast
next
  case (HttpRequest b str)
  then show ?thesis using assms that(11) by simp
next
  case (Locked h)
  then obtain b str where hs: "handlers s h = H_Start b str"
    and s': "s' = (snd (handleApproval env b str s))
                   \<lparr>handlers := (handlers (snd (handleApproval env b str s)))
                      (h := fst (handleApproval env b str s))\<rparr>"
    using assms by (simp split: handler.splits prod.splits)
  have "snd (handleApproval env b str s) = s\<lparr>callQueue := callQueue (snd (handleApproval env b str s))\<rparr>"
    by (simp add: handleApproval_def lookupAndDelete_def split: option.splits)
  then have "s' = s\<lparr>callQueue := callQueue (snd (handleApproval env b str s)),
                     handlers := (handlers s)(h := fst (handleApproval env b str s))\<rparr>"
    using s' by (metis (no_types) server.select_convs(8) server.surjective server.update_convs(6))
  moreover have "\<forall>k pc. callQueue (snd (handleApproval env b str s)) k = Some pc
                   \<longrightarrow> callQueue s k = Some pc"
    by (simp add: handleApproval_def lookupAndDelete_def split: option.splits if_splits)
  ultimately show ?thesis using Locked hs that(12) by blast
next
  case (Forward h)
  then obtain pc where "handlers s h = H_Forward pc"
    and "s' = s\<lparr>upstream := snd (forward env ''Forward error: '' (Request pc) (upstream s)),
                 handlers := (handlers s)
                   (h := H_Send (ResponseC pc)
                           (fst (forward env ''Forward error: '' (Request pc) (upstream s))))\<rparr>"
    using assms by (simp split: handler.splits prod.splits)
  then show ?thesis using Forward that(13) by blast
next
  case (Deliver h)
  then obtain c v ctx where "handlers s h = H_Send c v" and "goroutines s c = G_Select ctx"
    and "s' = s\<lparr>goroutines := (goroutines s)(c := G_Return v),
                 handlers := (handlers s)(h := H_Replied (HttpRedirect ''/'' 302))\<rparr>"
    using assms by (simp split: handler.splits goroutine.splits)
  then show ?thesis using Deliver that(14) by blast
qed

lemma task_ok_init: "task_ok (init u) a"
  by (simp add: task_ok_def init_def)

lemma task_ok_fire:
  assumes inv: "\<And>b. task_ok s b" and f: "fire env e s = Some s'"
  shows "task_ok s' a"
  using f
proof (cases rule: fireE)
  case (ToolCall n c r)
  then show ?thesis using inv [of a]
    by (auto simp: task_ok_def startLongRunningTask_state Pending_def Done_def less_Suc_eq)
next
  case (ConsentCall n c r)
  then show ?thesis using inv [of a]
    by (auto simp: task_ok_def startLongRunningTask_state Pending_def Done_def less_Suc_eq)
next
  case (Forwarded x req ctx out u')
  then show ?thesis using inv [of a] inv [of x]
    by (auto simp: task_ok_def Pending_def Done_def split: if_splits)
next
  case (Enqueue x req ctx)
  then show ?thesis using inv [of a] inv [of x]
    by (auto simp: task_ok_def enqueue_def Let_def Pending_def Done_def split: if_splits)
next
  case (CtxDone x ctx out)
  then show ?thesis using inv [of a] inv [of x]
    by (auto simp: task_ok_def Pending_def Done_def split: if_splits)
next
  case (Finish x out)
  then show ?thesis using inv [of a] inv [of x]
    by (auto simp: task_ok_def finish_def Pending_def Done_def split: if_splits)
next
  case (Deliver h c v ctx)
  then show ?thesis using inv [of a] inv [of c]
    by (auto simp: task_ok_def Pending_def Done_def split: if_splits)
qed (use inv [of a] in \<open>auto simp: task_ok_def split: if_splits\<close>)

lemma task_ok_run:
  "(\<And>b. task_ok s b) \<Longrightarrow> run env evs s = Some s' \<Longrightarrow> task_ok s' a"
proof (induction evs arbitrary: s a)
  case Nil
  then show ?case by simp
next
  case (Cons e evs)
  from Cons.prems(2) obtain s1 where 1: "fire env e s = Some s1" and 2: "run env evs s1 = Some s'"
    by (auto split: option.splits)
  have "\<And>b. task_ok s1 b" using Cons.prems(1) 1 by (rule task_ok_fire)
  then show ?case using 2 by (rule Cons.IH)
qed

text \<open>
  The only event that writes to an allocated task is the \<open>Finish\<close> of its goroutine, and
  a task is Pending when it is allocated.
\<close>

lemma frame_fire:
  assumes f: "fire env e s = Some s'" and a: "a < allocated s" and n: "e \<noteq> Finish a"
  shows "tasks s' a = tasks s a \<and> a < allocated s'"
  using f
proof (cases rule: fireE)
  case (Finish x out)
  then show ?thesis using a n by (simp add: finish_def)
qed (use a in \<open>simp_all add: startLongRunningTask_state enqueue_def Let_def\<close>)

lemma fresh_fire:
  assumes f: "fire env e s = Some s'" and a: "allocated s \<le> a" and a': "a < allocated s'"
  shows "status (tasks s' a) = Pending \<and> e \<noteq> Finish a \<and> goroutines s' a \<noteq> G_Exit"
  using f
proof (cases rule: fireE)
  case (ToolCall n c r)
  then show ?thesis using a a' by (auto simp: startLongRunningTask_state)
next
  case (ConsentCall n c r)
  then show ?thesis using a a' by (auto simp: startLongRunningTask_state)
qed (use a a' in \<open>simp_all add: enqueue_def finish_def Let_def\<close>)

lemma finish_once:
  assumes inv: "\<And>b. task_ok s b" and f: "fire env (Finish a) s = Some s'"
  shows "\<not> isDone s a \<and> isDone s' a"
  using f inv [of a]
  by (auto simp: isDone_def task_ok_def finish_def split: goroutine.splits if_splits)

lemma isDone_fire:
  assumes inv: "\<And>b. task_ok s b" and f: "fire env e s = Some s'"
  shows "isDone s' a \<longleftrightarrow> isDone s a \<or> e = Finish a"
proof (cases "e = Finish a")
  case True
  then show ?thesis using finish_once [OF inv, of env a s'] f by simp
next
  case False
  show ?thesis
  proof (cases "a < allocated s")
    case True
    then show ?thesis using frame_fire [OF f True False] False by (simp add: isDone_def)
  next
    case False
    then have "\<not> isDone s a" by (simp add: isDone_def)
    moreover have "\<not> isDone s' a"
      using fresh_fire [OF f, of a] False by (auto simp: isDone_def Pending_def Done_def)
    ultimately show ?thesis using \<open>e \<noteq> Finish a\<close> by simp
  qed
qed

lemma done_fire:
  assumes inv: "\<And>b. task_ok s b" and f: "fire env e s = Some s'"
    and a: "a < allocated s" and d: "status (tasks s a) = Done"
  shows "tasks s' a = tasks s a \<and> a < allocated s'"
proof -
  have "isDone s a" using a d by (simp add: isDone_def)
  then have "e \<noteq> Finish a" using finish_once [OF inv, of env a s'] f by blast
  then show ?thesis using frame_fire [OF f a] by simp
qed

lemma done_run:
  "(\<And>b. task_ok s b) \<Longrightarrow> run env evs s = Some s' \<Longrightarrow> a < allocated s \<Longrightarrow>
   status (tasks s a) = Done \<Longrightarrow> tasks s' a = tasks s a \<and> a < allocated s'"
proof (induction evs arbitrary: s)
  case Nil
  then show ?case by simp
next
  case (Cons e evs)
  from Cons.prems(2) obtain s1 where 1: "fire env e s = Some s1" and 2: "run env evs s1 = Some s'"
    by (auto split: option.splits)
  have i1: "\<And>b. task_ok s1 b" using Cons.prems(1) 1 by (rule task_ok_fire)
  have d1: "tasks s1 a = tasks s a \<and> a < allocated s1"
    using Cons.prems(1) 1 Cons.prems(3,4) by (rule done_fire)
  then have "tasks s' a = tasks s1 a \<and> a < allocated s'"
    using Cons.IH [OF i1 2] Cons.prems(4) by simp
  with d1 show ?case by simp
qed

lemma count_finish_run:
  "(\<And>b. task_ok s b) \<Longrightarrow> run env evs s = Some s' \<Longrightarrow>
   count_list evs (Finish a) + (if isDone s a then 1 else 0) = (if isDone s' a then 1 else 0)"
proof (induction evs arbitrary: s)
  case Nil
  then show ?case by simp
next
  case (Cons e evs)
  from Cons.prems(2) obtain s1 where 1: "fire env e s = Some s1" and 2: "run env evs s1 = Some s'"
    by (auto split: option.splits)
  have i1: "\<And>b. task_ok s1 b" using Cons.prems(1) 1 by (rule task_ok_fire)
  note IH = Cons.IH [OF i1 2]
  note D = isDone_fire [OF Cons.prems(1) 1, of a]
  show ?case
  proof (cases "e = Finish a")
    case True
    then have "\<not> isDone s a" using finish_once [OF Cons.prems(1)] 1 by blast
    then show ?thesis using IH D True by simp
  next
    case False
    then show ?thesis using IH D by simp
  qed
qed

section \<open>Consent proxy: the channel of a pending call\<close>

lemma chan_inv_init: "chan_inv (init u)"
  by (simp add: chan_inv_def init_def)

lemma chan_invI:
  assumes "\<And>k pc. callQueue s k = Some pc \<Longrightarrow> past_start (goroutines s (ResponseC pc))"
    and "\<And>h c. holds (handlers s h) c \<Longrightarrow> past_start (goroutines s c)"
    and "\<And>k k' pc pc'. callQueue s k = Some pc \<Longrightarrow> callQueue s k' = Some pc' \<Longrightarrow>
          ResponseC pc = ResponseC pc' \<Longrightarrow> k = k'"
    and "\<And>h k pc. callQueue s k = Some pc \<Longrightarrow> holds (handlers s h) (ResponseC pc) \<Longrightarrow> False"
    and "\<And>h h' c. holds (handlers s h) c \<Longrightarrow> holds (handlers s h') c \<Longrightarrow> h = h'"
    and "\<And>a. allocated s \<le> a \<Longrightarrow> goroutines s a = G_None"
  shows "chan_inv s"
  unfolding chan_inv_def using assms by blast

lemma queued_past: "chan_inv s \<Longrightarrow> callQueue s k = Some pc \<Longrightarrow> past_start (goroutines s (ResponseC pc))"
  unfolding chan_inv_def by blast

lemma held_past: "chan_inv s \<Longrightarrow> holds (handlers s h) c \<Longrightarrow> past_start (goroutines s c)"
  unfolding chan_inv_def by blast

lemma queued_once:
  "chan_inv s \<Longrightarrow> callQueue s k = Some pc \<Longrightarrow> callQueue s k' = Some pc' \<Longrightarrow>
   ResponseC pc = ResponseC pc' \<Longrightarrow> k = k'"
  unfolding chan_inv_def by blast

lemma queued_not_held:
  "chan_inv s \<Longrightarrow> callQueue s k = Some pc \<Longrightarrow> holds (handlers s h) (ResponseC pc) \<Longrightarrow> False"
  unfolding chan_inv_def by blast

lemma held_once: "chan_inv s \<Longrightarrow> holds (handlers s h) c \<Longrightarrow> holds (handlers s h') c \<Longrightarrow> h = h'"
  unfolding chan_inv_def by blast

lemma fresh_none: "chan_inv s \<Longrightarrow> allocated s \<le> a \<Longrightarrow> goroutines s a = G_None"
  unfolding chan_inv_def by blast

text \<open>A goroutine that moves on, or a goroutine that is started at a fresh address.\<close>

lemma chan_inv_moves:
  assumes i: "chan_inv s" and g: "past_start g" and a: "goroutines s a \<noteq> G_None"
    and q: "callQueue s' = callQueue s" and h: "handlers s' = handlers s"
    and gs: "goroutines s' = (goroutines s)(a := g)" and al: "allocated s' = allocated s"
  shows "chan_inv s'"
proof (rule chan_invI)
  fix k pc assume "callQueue s' k = Some pc"
  then show "past_start (goroutines s' (ResponseC pc))"
    using queued_past [OF i, of k pc] g by (simp add: q gs)
next
  fix x c assume "holds (handlers s' x) c"
  then show "past_start (goroutines s' c)"
    using held_past [OF i, of x c] g by (simp add: h gs)
next
  fix k k' pc pc' assume "callQueue s' k = Some pc" "callQueue s' k' = Some pc'" "ResponseC pc = ResponseC pc'"
  then show "k = k'" using queued_once [OF i, of k pc k' pc'] by (simp add: q)
next
  fix x k pc assume "callQueue s' k = Some pc" "holds (handlers s' x) (ResponseC pc)"
  then show False using queued_not_held [OF i, of k pc x] by (simp add: q h)
next
  fix x x' c assume "holds (handlers s' x) c" "holds (handlers s' x') c"
  then show "x = x'" using held_once [OF i, of x c x'] by (simp add: h)
next
  fix b assume "allocated s' \<le> b"
  then show "goroutines s' b = G_None"
    using fresh_none [OF i, of b] a by (auto simp: gs al)
qed

lemma chan_inv_starts:
  assumes i: "chan_inv s"
    and q: "callQueue s' = callQueue s" and h: "handlers s' = handlers s"
    and gs: "goroutines s' = (goroutines s)(allocated s := G_Start f)"
    and al: "allocated s' = Suc (allocated s)"
  shows "chan_inv s'"
proof (rule chan_invI)
  have n: "goroutines s (allocated s) = G_None" using fresh_none [OF i] by simp
  {
    fix k pc assume "callQueue s' k = Some pc"
    then show "past_start (goroutines s' (ResponseC pc))"
      using queued_past [OF i, of k pc] n by (auto simp: q gs)
  next
    fix x c assume "holds (handlers s' x) c"
    then show "past_start (goroutines s' c)"
      using held_past [OF i, of x c] n by (auto simp: h gs)
  }
next
  fix k k' pc pc' assume "callQueue s' k = Some pc" "callQueue s' k' = Some pc'" "ResponseC pc = ResponseC pc'"
  then show "k = k'" using queued_once [OF i, of k pc k' pc'] by (simp add: q)
next
  fix x k pc assume "callQueue s' k = Some pc" "holds (handlers s' x) (ResponseC pc)"
  then show False using queued_not_held [OF i, of k pc x] by (simp add: q h)
next
  fix x x' c assume "holds (handlers s' x) c" "holds (handlers s' x') c"
  then show "x = x'" using held_once [OF i, of x c x'] by (simp add: h)
next
  fix b assume "allocated s' \<le> b"
  then show "goroutines s' b = G_None"
    using fresh_none [OF i, of b] by (auto simp: gs al)
qed

text \<open>A handler that arrives, answers, or goes on holding what it held.\<close>

lemma chan_inv_handler:
  assumes i: "chan_inv s" and n: "\<And>c. holds nh c \<Longrightarrow> holds (handlers s x) c"
    and q: "callQueue s' = callQueue s" and h: "handlers s' = (handlers s)(x := nh)"
    and gs: "goroutines s' = goroutines s" and al: "allocated s' = allocated s"
  shows "chan_inv s'"
proof (rule chan_invI)
  have sub: "\<And>y c. holds (handlers s' y) c \<Longrightarrow> holds (handlers s y) c"
    using n by (auto simp: h split: if_splits)
  have same: "\<And>y c. holds (handlers s' y) c \<Longrightarrow> y \<noteq> x \<Longrightarrow> handlers s' y = handlers s y"
    by (simp add: h)
  {
    fix k pc assume "callQueue s' k = Some pc"
    then show "past_start (goroutines s' (ResponseC pc))"
      using queued_past [OF i, of k pc] by (simp add: q gs)
  next
    fix y c assume "holds (handlers s' y) c"
    then show "past_start (goroutines s' c)"
      using held_past [OF i, of y c] sub by (simp add: gs)
  next
    fix k k' pc pc' assume "callQueue s' k = Some pc" "callQueue s' k' = Some pc'" "ResponseC pc = ResponseC pc'"
    then show "k = k'" using queued_once [OF i, of k pc k' pc'] by (simp add: q)
  next
    fix y k pc assume "callQueue s' k = Some pc" "holds (handlers s' y) (ResponseC pc)"
    then show False using queued_not_held [OF i, of k pc y] sub by (simp add: q)
  next
    fix y y' c assume "holds (handlers s' y) c" "holds (handlers s' y') c"
    then show "y = y'" using held_once [OF i, of y c y'] sub by blast
  next
    fix b assume "allocated s' \<le> b"
    then show "goroutines s' b = G_None" using fresh_none [OF i, of b] by (simp add: gs al)
  }
qed

text \<open>The critical section of the consent closure.\<close>

lemma chan_inv_enqueue:
  assumes i: "chan_inv s" and a: "goroutines s a = G_Start w"
  shows "chan_inv (enqueue a req ctx s)"
proof (rule chan_invI)
  let ?s' = "enqueue a req ctx s"
  have q: "callQueue ?s' = (callQueue s)(nextCallID s \<mapsto>
             \<lparr>CallID = nextCallID s, Request = req, ResponseC = a\<rparr>)"
    and h: "handlers ?s' = handlers s"
    and gs: "goroutines ?s' = (goroutines s)(a := G_Select ctx)"
    and al: "allocated ?s' = allocated s"
    by (simp_all add: enqueue_def Let_def)
  have old: "\<And>k pc. callQueue s k = Some pc \<Longrightarrow> ResponseC pc \<noteq> a"
    using queued_past [OF i] a by fastforce
  have oldh: "\<And>y. \<not> holds (handlers s y) a"
    using held_past [OF i] a by fastforce
  {
    fix k pc assume "callQueue ?s' k = Some pc"
    then show "past_start (goroutines ?s' (ResponseC pc))"
      using queued_past [OF i, of k pc] by (auto simp: q gs split: if_splits)
  next
    fix y c assume "holds (handlers ?s' y) c"
    then show "past_start (goroutines ?s' c)"
      using held_past [OF i, of y c] by (simp add: h gs)
  next
    fix k k' pc pc'
    assume "callQueue ?s' k = Some pc" "callQueue ?s' k' = Some pc'" "ResponseC pc = ResponseC pc'"
    then show "k = k'"
      using queued_once [OF i, of k pc k' pc'] old [of k pc] old [of k' pc']
      by (auto simp: q split: if_splits)
  next
    fix y k pc assume "callQueue ?s' k = Some pc" "holds (handlers ?s' y) (ResponseC pc)"
    then show False
      using queued_not_held [OF i, of k pc y] oldh [of y] by (auto simp: q h split: if_splits)
  next
    fix y y' c assume "holds (handlers ?s' y) c" "holds (handlers ?s' y') c"
    then show "y = y'" using held_once [OF i, of y c y'] by (simp add: h)
  next
    fix b assume "allocated ?s' \<le> b"
    then show "goroutines ?s' b = G_None"
      using fresh_none [OF i, of b] a by (auto simp: gs al)
  }
qed

text \<open>The critical section of the approval handler.\<close>

lemma chan_inv_take:
  assumes i: "chan_inv s" and x: "\<And>c. \<not> holds (handlers s x) c"
    and nh: "\<And>c. holds nh c \<Longrightarrow> (\<exists>pc. callQueue s cid = Some pc \<and> ResponseC pc = c)"
    and q: "callQueue s' = (callQueue s)(cid := None)" and h: "handlers s' = (handlers s)(x := nh)"
    and gs: "goroutines s' = goroutines s" and al: "allocated s' = allocated s"
  shows "chan_inv s'"
proof (rule chan_invI)
  have qsub: "\<And>k pc. callQueue s' k = Some pc \<Longrightarrow> callQueue s k = Some pc \<and> k \<noteq> cid"
    by (auto simp: q split: if_splits)
  have hcase: "\<And>y c. holds (handlers s' y) c \<Longrightarrow>
                 (y = x \<and> holds nh c) \<or> (y \<noteq> x \<and> holds (handlers s y) c)"
    by (auto simp: h split: if_splits)
  {
    fix k pc assume "callQueue s' k = Some pc"
    then show "past_start (goroutines s' (ResponseC pc))"
      using queued_past [OF i, of k pc] qsub by (simp add: gs)
  next
    fix y c assume "holds (handlers s' y) c"
    then show "past_start (goroutines s' c)"
      using hcase [of y c] held_past [OF i, of y c] nh [of c] queued_past [OF i, of cid]
      by (auto simp: gs)
  next
    fix k k' pc pc' assume "callQueue s' k = Some pc" "callQueue s' k' = Some pc'" "ResponseC pc = ResponseC pc'"
    then show "k = k'" using queued_once [OF i, of k pc k' pc'] qsub by blast
  next
    fix y k pc assume a: "callQueue s' k = Some pc" "holds (handlers s' y) (ResponseC pc)"
    from a(1) have k: "callQueue s k = Some pc" "k \<noteq> cid" using qsub by blast+
    from hcase [OF a(2)] show False
    proof
      assume "y = x \<and> holds nh (ResponseC pc)"
      then obtain pc' where "callQueue s cid = Some pc'" "ResponseC pc' = ResponseC pc"
        using nh by blast
      then show False using queued_once [OF i, of cid pc' k pc] k by simp
    next
      assume "y \<noteq> x \<and> holds (handlers s y) (ResponseC pc)"
      then show False using queued_not_held [OF i k(1)] by blast
    qed
  next
    fix y y' c assume a: "holds (handlers s' y) c" "holds (handlers s' y') c"
    have r: "\<And>z. holds nh c \<Longrightarrow> holds (handlers s z) c \<Longrightarrow> False"
    proof -
      fix z assume "holds nh c" "holds (handlers s z) c"
      then obtain pc where "callQueue s cid = Some pc" "ResponseC pc = c" using nh by blast
      then show False using queued_not_held [OF i, of cid pc z] \<open>holds (handlers s z) c\<close> by simp
    qed
    from hcase [OF a(1)] hcase [OF a(2)] show "y = y'"
      using held_once [OF i, of y c y'] r by blast
  next
    fix b assume "allocated s' \<le> b"
    then show "goroutines s' b = G_None" using fresh_none [OF i, of b] by (simp add: gs al)
  }
qed

lemma chan_inv_start:
  assumes "chan_inv s"
  shows "chan_inv (snd (startLongRunningTask f s))"
  by (rule chan_inv_starts [OF assms, of _ f])
     (simp_all add: startLongRunningTask_def Run_def Let_def)

lemma chan_inv_frame:
  "chan_inv (s\<lparr>upstream := u\<rparr>) = chan_inv s"
  "chan_inv (s\<lparr>cancelled := cs\<rparr>) = chan_inv s"
  by (simp_all add: chan_inv_def)

lemma chan_inv_fire:
  assumes i: "chan_inv s" and f: "fire env e s = Some s'"
  shows "chan_inv s'"
proof (cases e)
  case (ToolCall n c r)
  show ?thesis
  proof (cases "lroMethods (configs env) n")
    case True
    then have "s' = snd (startLongRunningTask (ForwardWork r c) s)"
      using f ToolCall by (simp add: passthroughHandler_def split: prod.splits)
    then show ?thesis using chan_inv_start [OF i] by simp
  next
    case False
    then have "s' = s\<lparr>upstream := snd (forward env ''forward error: '' r (upstream s))\<rparr>"
      using f ToolCall by (auto simp: passthroughHandler_def split: prod.splits)
    then show ?thesis using i by (simp add: chan_inv_frame)
  qed
next
  case (ConsentCall n c r)
  have "s' = s \<or> s' = snd (startLongRunningTask (ConsentWork r c) s)"
    using f ConsentCall
    by (auto simp: proxyTool_def consentProxyHandler_def split: prod.splits option.splits if_splits)
  then show ?thesis using i chan_inv_start [OF i] by auto
next
  case (CheckTask r)
  then show ?thesis using f i by (auto split: check_outcome.splits)
next
  case (Cancel c)
  then have "s' = s\<lparr>cancelled := insert c (cancelled s)\<rparr>" using f by simp
  then show ?thesis using i by (simp add: chan_inv_frame)
next
  case (Forwarded a)
  then obtain out u' where "s' = s\<lparr>upstream := u', goroutines := (goroutines s)(a := G_Return out)\<rparr>"
    and "goroutines s a \<noteq> G_None"
    using f by (auto split: goroutine.splits work.splits prod.splits)
  then show ?thesis using chan_inv_moves [OF i, of "G_Return out" a s'] by simp
next
  case (Enqueue a)
  then obtain req ctx where "s' = enqueue a req ctx s" and "goroutines s a = G_Start (ConsentWork req ctx)"
    using f by (auto split: goroutine.splits work.splits)
  then show ?thesis using chan_inv_enqueue [OF i] by simp
next
  case (CtxDone a)
  then obtain out where "s' = s\<lparr>goroutines := (goroutines s)(a := G_Return out)\<rparr>"
    and "goroutines s a \<noteq> G_None"
    using f by (auto split: goroutine.splits if_splits)
  then show ?thesis using chan_inv_moves [OF i, of "G_Return out" a s'] by simp
next
  case (Finish a)
  then obtain out where "s' = finish a out s" and "goroutines s a \<noteq> G_None"
    using f by (auto split: goroutine.splits)
  then show ?thesis using chan_inv_moves [OF i, of G_Exit a s'] by (simp add: finish_def)
next
  case (HttpRequest b str)
  then have "s' = s\<lparr>handlers := (handlers s)(served s := H_Start b str), served := Suc (served s)\<rparr>"
    using f by simp
  then show ?thesis using chan_inv_handler [OF i, of "H_Start b str" "served s" s'] by simp
next
  case (Locked x)
  then obtain b str where hs: "handlers s x = H_Start b str"
    and s': "s' = (snd (handleApproval env b str s))
                   \<lparr>handlers := (handlers (snd (handleApproval env b str s)))
                      (x := fst (handleApproval env b str s))\<rparr>"
    using f by (auto split: handler.splits prod.splits)
  show ?thesis
  proof (cases "Atoi env str")
    case None
    then have "s' = s\<lparr>handlers := (handlers s)(x := H_Replied (HttpError ''Invalid ID'' 400))\<rparr>"
      using s' by (simp add: handleApproval_def)
    then show ?thesis
      using chan_inv_handler [OF i, of "H_Replied (HttpError ''Invalid ID'' 400)" x s'] by simp
  next
    case (Some cid)
    let ?nh = "fst (handleApproval env b str s)"
    have 1: "\<And>c. \<not> holds (handlers s x) c" by (simp add: hs)
    have 2: "\<And>c. holds ?nh c \<Longrightarrow> (\<exists>pc. callQueue s cid = Some pc \<and> ResponseC pc = c)"
      using Some by (auto simp: handleApproval_def lookupAndDelete_def split: option.splits if_splits)
    have 3: "callQueue s' = (callQueue s)(cid := None)" "handlers s' = (handlers s)(x := ?nh)"
      "goroutines s' = goroutines s" "allocated s' = allocated s"
      using Some s' by (auto simp: handleApproval_def lookupAndDelete_def split: option.splits if_splits)
    show ?thesis by (rule chan_inv_take [OF i 1 2 3])
  qed
next
  case (Forward x)
  then obtain pc out u' where hs: "handlers s x = H_Forward pc"
    and s': "s' = s\<lparr>upstream := u', handlers := (handlers s)(x := H_Send (ResponseC pc) out)\<rparr>"
    using f by (auto split: handler.splits prod.splits)
  show ?thesis
    using chan_inv_handler [OF i, of "H_Send (ResponseC pc) out" x s'] hs s' by simp
next
  case (Deliver x)
  then obtain c v ctx where hs: "handlers s x = H_Send c v" and g: "goroutines s c = G_Select ctx"
    and s': "s' = s\<lparr>goroutines := (goroutines s)(c := G_Return v),
                      handlers := (handlers s)(x := H_Replied (HttpRedirect ''/'' 302))\<rparr>"
    using f by (auto split: handler.splits goroutine.splits)
  let ?s1 = "s\<lparr>goroutines := (goroutines s)(c := G_Return v)\<rparr>"
  have 1: "chan_inv ?s1" using chan_inv_moves [OF i, of "G_Return v" c ?s1] g by simp
  show ?thesis
    using chan_inv_handler [OF 1, of "H_Replied (HttpRedirect ''/'' 302)" x s'] s' by simp
qed

lemma chan_inv_run: "chan_inv s \<Longrightarrow> run env evs s = Some s' \<Longrightarrow> chan_inv s'"
proof (induction evs arbitrary: s)
  case Nil
  then show ?case by simp
next
  case (Cons e evs)
  from Cons.prems(2) obtain s1 where 1: "fire env e s = Some s1" and 2: "run env evs s1 = Some s'"
    by (auto split: option.splits)
  have "chan_inv s1" using Cons.prems(1) 1 by (rule chan_inv_fire)
  then show ?case using 2 by (rule Cons.IH)
qed

section \<open>Consent proxy: decisions and registrations\<close>

lemma start_queue:
  "callQueue (snd (startLongRunningTask f s)) = callQueue s"
  "nextCallID (snd (startLongRunningTask f s)) = nextCallID s"
  by (simp_all add: startLongRunningTask_def Run_def Let_def)

lemma start_queueD:
  "startLongRunningTask f s = (r, s') \<Longrightarrow> callQueue s' = callQueue s \<and> nextCallID s' = nextCallID s"
  using start_queue [of f s] by simp

lemma decides_takes:
  assumes "fire env e s = Some s'" and "decides env cid e s"
  shows "callQueue s cid \<noteq> None \<and> callQueue s' cid = None \<and> \<not> registers cid e s"
  using assms
  by (cases e)
     (auto simp: decides_def registers_def handleApproval_def lookupAndDelete_def
       split: handler.splits option.splits if_splits)

lemma queue_grows_by_enqueue:
  assumes "fire env e s = Some s'" and "\<not> registers cid e s" and "callQueue s' cid \<noteq> None"
  shows "callQueue s cid \<noteq> None"
proof (cases e)
  case (ToolCall n c r)
  then show ?thesis using assms
    by (auto simp: passthroughHandler_def dest: start_queueD split: prod.splits if_splits)
next
  case (ConsentCall n c r)
  then show ?thesis using assms
    by (auto simp: proxyTool_def consentProxyHandler_def dest: start_queueD
        split: prod.splits if_splits option.splits)
next
  case (CheckTask r)
  then show ?thesis using assms by (auto split: check_outcome.splits)
next
  case (Enqueue a)
  then show ?thesis using assms
    by (auto simp: registers_def enqueue_def Let_def split: goroutine.splits work.splits if_splits)
next
  case (Locked h)
  then show ?thesis using assms
    by (auto simp: handleApproval_def lookupAndDelete_def
        split: handler.splits option.splits if_splits)
qed (use assms in \<open>auto simp: finish_def split: goroutine.splits work.splits prod.splits handler.splits if_splits\<close>)

lemma decided_le_registered:
  "tally (decides env cid) env evs s
     \<le> (if callQueue s cid \<noteq> None then 1 else 0) + tally (registers cid) env evs s"
proof (induction evs arbitrary: s)
  case Nil
  then show ?case by simp
next
  case (Cons e evs)
  show ?case
  proof (cases "fire env e s")
    case None
    then show ?thesis by simp
  next
    case (Some s')
    define q q' r d :: nat
      where "q = (if callQueue s cid \<noteq> None then 1 else 0)"
        and "q' = (if callQueue s' cid \<noteq> None then 1 else 0)"
        and "r = (if registers cid e s then 1 else 0)"
        and "d = (if decides env cid e s then 1 else 0)"
    have IH: "tally (decides env cid) env evs s' \<le> q' + tally (registers cid) env evs s'"
      using Cons.IH [of s'] by (simp add: q'_def)
    have "d + q' \<le> q + r"
    proof (cases "decides env cid e s")
      case True
      then show ?thesis using decides_takes [OF Some True] by (simp add: d_def q_def q'_def r_def)
    next
      case False
      then show ?thesis using queue_grows_by_enqueue [OF Some, of cid]
        by (auto simp: d_def q_def q'_def r_def)
    qed
    moreover have "tally (decides env cid) env (e # evs) s = d + tally (decides env cid) env evs s'"
      using Some by (simp add: d_def)
    moreover have "tally (registers cid) env (e # evs) s = r + tally (registers cid) env evs s'"
      using Some by (simp add: r_def)
    ultimately show ?thesis using IH unfolding q_def [symmetric] by linarith
  qed
qed

text \<open>The call ids are drawn in order, so an id comes back only after a full round.\<close>

lemma counter_step:
  assumes "fire env e s = Some s'"
  shows "nextCallID s' = (if registers (nextCallID s) e s then nextCallID s + 1 else nextCallID s)"
proof (cases e)
  case (ToolCall n c r)
  then show ?thesis using assms
    by (auto simp: registers_def passthroughHandler_def dest: start_queueD split: prod.splits if_splits)
next
  case (ConsentCall n c r)
  then show ?thesis using assms
    by (auto simp: registers_def proxyTool_def consentProxyHandler_def dest: start_queueD
        split: prod.splits if_splits option.splits)
next
  case (CheckTask r)
  then show ?thesis using assms by (auto simp: registers_def split: check_outcome.splits)
next
  case (Enqueue a)
  then show ?thesis using assms
    by (auto simp: registers_def enqueue_def Let_def split: goroutine.splits work.splits if_splits)
next
  case (Locked h)
  then show ?thesis using assms
    by (auto simp: registers_def handleApproval_def lookupAndDelete_def
        split: handler.splits option.splits if_splits)
qed (use assms in \<open>auto simp: registers_def finish_def split: goroutine.splits work.splits prod.splits handler.splits if_splits\<close>)

lemma registers_counter: "registers cid e s \<Longrightarrow> cid = nextCallID s"
  by (auto simp: registers_def split: event.splits goroutine.splits work.splits)

lemma registers_any: "registers cid e s \<Longrightarrow> registers (nextCallID s) e s"
  by (auto simp: registers_def split: event.splits goroutine.splits work.splits)

lemma distance_step:
  fixes cid n :: "64 word"
  assumes "cid \<noteq> n"
  shows "unat (cid - (n + 1)) = unat (cid - n) - 1"
proof -
  have "cid - n \<noteq> 0" using assms by simp
  then have "unat (cid - n - 1) = unat (cid - n) - 1" by (rule unat_minus_one)
  moreover have "cid - (n + 1) = cid - n - 1" by (simp add: algebra_simps)
  ultimately show ?thesis by (simp only:)
qed

lemma distance_round: "unat (cid - (cid + 1) :: 64 word) = 2 ^ 64 - 1"
  by (simp add: unsigned_minus_1_eq_mask mask_eq_exp_minus_1)

lemma none_registered:
  "length evs \<le> unat (cid - nextCallID s) \<Longrightarrow> tally (registers cid) env evs s = 0"
proof (induction evs arbitrary: s)
  case Nil
  then show ?case by simp
next
  case (Cons e evs)
  show ?case
  proof (cases "fire env e s")
    case None
    then show ?thesis by simp
  next
    case (Some s')
    have pos: "0 < unat (cid - nextCallID s)" using Cons.prems by simp
    then have ne: "cid \<noteq> nextCallID s" by auto
    then have nr: "\<not> registers cid e s" using registers_counter by blast
    have "length evs \<le> unat (cid - nextCallID s')"
      using counter_step [OF Some] distance_step [OF ne] Cons.prems by (auto split: if_splits)
    then have "tally (registers cid) env evs s' = 0" by (rule Cons.IH)
    then show ?thesis using Some nr by simp
  qed
qed

lemma one_registered:
  "length evs \<le> unat (cid - nextCallID s) + 2 ^ 64 \<Longrightarrow> tally (registers cid) env evs s \<le> 1"
proof (induction evs arbitrary: s)
  case Nil
  then show ?case by simp
next
  case (Cons e evs)
  show ?case
  proof (cases "fire env e s")
    case None
    then show ?thesis by simp
  next
    case (Some s')
    show ?thesis
    proof (cases "registers cid e s")
      case True
      then have c: "cid = nextCallID s" by (rule registers_counter)
      then have "nextCallID s' = cid + 1" using counter_step [OF Some] True by simp
      then have "unat (cid - nextCallID s') = 2 ^ 64 - 1" using distance_round by simp
      moreover have "length evs \<le> 2 ^ 64 - 1" using Cons.prems c by simp
      ultimately have "tally (registers cid) env evs s' = 0" using none_registered [of evs cid s' env] by simp
      then show ?thesis using Some True by simp
    next
      case False
      have "length evs \<le> unat (cid - nextCallID s') + 2 ^ 64"
      proof (cases "registers (nextCallID s) e s")
        case True
        with False have ne: "cid \<noteq> nextCallID s" by auto
        then have "0 < unat (cid - nextCallID s)" by (simp add: unat_gt_0)
        then show ?thesis
          using counter_step [OF Some] True distance_step [OF ne] Cons.prems by simp
      next
        case False
        then show ?thesis using counter_step [OF Some] Cons.prems by simp
      qed
      then have "tally (registers cid) env evs s' \<le> 1" by (rule Cons.IH)
      then show ?thesis using Some False by simp
    qed
  qed
qed

lemma decided_once:
  assumes "length evs < 2 ^ 64"
  shows "tally (decides env cid) env evs (init u) \<le> 1"
proof -
  have "tally (registers cid) env evs (init u) \<le> 1"
    using assms by (intro one_registered) simp
  moreover have "callQueue (init u) cid = None" by (simp add: init_def)
  ultimately show ?thesis using decided_le_registered [of env cid evs "init u"] by simp
qed

text \<open>At most one decision ever takes the entry of a pending call out of the queue.\<close>

lemma spent_stays:
  assumes i: "chan_inv s" and f: "fire env e s = Some s'" and sp: "spent s c"
  shows "spent s' c"
  using f
proof (cases rule: fireE)
  case (ToolCall n c' r)
  have "goroutines s (allocated s) = G_None" using fresh_none [OF i] by simp
  then show ?thesis using sp ToolCall by (auto simp: spent_def startLongRunningTask_state)
next
  case (ConsentCall n c' r)
  have "goroutines s (allocated s) = G_None" using fresh_none [OF i] by simp
  then show ?thesis using sp ConsentCall by (auto simp: spent_def startLongRunningTask_state)
next
  case (Enqueue a req ctx)
  then show ?thesis using sp by (auto simp: spent_def enqueue_def Let_def)
next
  case (Locked h b str nh q)
  then show ?thesis using sp by (auto simp: spent_def)
qed (use sp in \<open>auto simp: spent_def finish_def\<close>)

lemma spent_not_taken: "spent s c \<Longrightarrow> \<not> takes env c e s"
  by (auto simp: spent_def takes_def split: event.splits handler.splits option.splits)

lemma taken_spent:
  assumes i: "chan_inv s" and f: "fire env e s = Some s'" and t: "takes env c e s"
  shows "spent s' c"
proof -
  from t obtain h b str cid pc where e: "e = Locked h" and hs: "handlers s h = H_Start b str"
    and a: "Atoi env str = Some cid" and q: "callQueue s cid = Some pc" and c: "ResponseC pc = c"
    by (auto simp: takes_def split: event.splits handler.splits option.splits)
  have g: "goroutines s' = goroutines s" and q': "callQueue s' = (callQueue s)(cid := None)"
    using f e hs a q by (auto simp: handleApproval_def lookupAndDelete_def split: if_splits)
  have "past_start (goroutines s c)" using queued_past [OF i q] c by simp
  moreover have "ResponseC pc' \<noteq> c" if "callQueue s' k = Some pc'" for k pc'
  proof
    assume "ResponseC pc' = c"
    moreover from that have "callQueue s k = Some pc'" "k \<noteq> cid"
      by (auto simp: q' split: if_splits)
    ultimately show False using queued_once [OF i q, of k pc'] c by simp
  qed
  ultimately show ?thesis by (simp add: spent_def g)
qed

lemma spent_never_taken:
  "chan_inv s \<Longrightarrow> spent s c \<Longrightarrow> tally (takes env c) env evs s = 0"
proof (induction evs arbitrary: s)
  case Nil
  then show ?case by simp
next
  case (Cons e evs)
  show ?case
  proof (cases "fire env e s")
    case None
    then show ?thesis by simp
  next
    case (Some s')
    have "chan_inv s'" using Cons.prems(1) Some by (rule chan_inv_fire)
    moreover have "spent s' c" using Cons.prems(1) Some Cons.prems(2) by (rule spent_stays)
    ultimately have "tally (takes env c) env evs s' = 0" by (rule Cons.IH)
    then show ?thesis using Some spent_not_taken [OF Cons.prems(2)] by simp
  qed
qed

lemma taken_once: "chan_inv s \<Longrightarrow> tally (takes env c) env evs s \<le> 1"
proof (induction evs arbitrary: s)
  case Nil
  then show ?case by simp
next
  case (Cons e evs)
  show ?case
  proof (cases "fire env e s")
    case None
    then show ?thesis by simp
  next
    case (Some s')
    have i': "chan_inv s'" using Cons.prems Some by (rule chan_inv_fire)
    show ?thesis
    proof (cases "takes env c e s")
      case True
      have "spent s' c" using Cons.prems Some True by (rule taken_spent)
      then have "tally (takes env c) env evs s' = 0" using i' spent_never_taken by blast
      then show ?thesis using Some True by simp
    next
      case False
      then show ?thesis using Cons.IH [OF i'] Some by simp
    qed
  qed
qed

section \<open>The claims about the interleavings\<close>

lemma run_slow:
  "run env0 [ToolCall ''slow'' 0 (req0 ''slow'' ''x''), Forwarded 0, Finish 0] (init 0)
     = Some (after [ToolCall ''slow'' 0 (req0 ''slow'' ''x''), Forwarded 0, Finish 0])"
  by (simp add: example_defs)

lemma run_cancel:
  "run env0 [ConsentCall ''list_tasks'' 5 (req0 ''list_tasks'' ''x''), Enqueue 0, Cancel 5] (init 0)
     = Some (after [ConsentCall ''list_tasks'' 5 (req0 ''list_tasks'' ''x''), Enqueue 0, Cancel 5])"
  by (simp add: example_defs)

lemma run_evs1: "run env0 evs1 (init 0) = Some (after evs1)"
  by (simp add: evs1_def example_defs)

text \<open>
  Claim C8. In every state that a run of either proxy reaches from the initial state, for
  every task that has been allocated: the stored result is non-nil exactly when the status
  is Done, and the status is Pending or Done. The run so far holds exactly one \<open>Finish\<close>
  event of the task when the task is Done and none when it is Pending; every event leaves
  the task as it is, except the \<open>Finish\<close> of its own goroutine, which finds it Pending
  and leaves it Done with a result; and once the task is Done, no later run changes it.
  (The closures of the repository return a result that is not nil: a result they build, or
  the result of the upstream client when it reports no error.)
\<close>

theorem task_done_once:
  assumes "run env evs (init u) = Some s" and "a < allocated s"
  shows "(result (tasks s a) \<noteq> None \<longleftrightarrow> status (tasks s a) = Done)
       \<and> (status (tasks s a) = Pending \<or> status (tasks s a) = Done)
       \<and> count_list evs (Finish a) = (if status (tasks s a) = Done then 1 else 0)
       \<and> (\<forall>e s'. fire env e s = Some s' \<longrightarrow>
             tasks s' a = tasks s a
           \<or> (e = Finish a \<and> status (tasks s a) = Pending \<and> status (tasks s' a) = Done
               \<and> result (tasks s' a) \<noteq> None))
       \<and> (\<forall>evs' s'. run env evs' s = Some s' \<and> status (tasks s a) = Done \<longrightarrow>
             tasks s' a = tasks s a)"
proof -
  have i0: "\<And>b. task_ok (init u) b" by (rule task_ok_init)
  have i: "\<And>b. task_ok s b" using i0 assms(1) by (rule task_ok_run)
  have ok: "task_ok s a" by (rule i)
  have 1: "result (tasks s a) \<noteq> None \<longleftrightarrow> status (tasks s a) = Done"
    and 2: "status (tasks s a) = Pending \<or> status (tasks s a) = Done"
    using ok assms(2) by (simp_all add: task_ok_def)
  have "\<not> isDone (init u) a" by (simp add: isDone_def init_def)
  then have "count_list evs (Finish a) = (if isDone s a then 1 else 0)"
    using count_finish_run [OF i0 assms(1), of a] by simp
  then have 3: "count_list evs (Finish a) = (if status (tasks s a) = Done then 1 else 0)"
    using assms(2) by (simp add: isDone_def)
  have 4: "tasks s' a = tasks s a
           \<or> (e = Finish a \<and> status (tasks s a) = Pending \<and> status (tasks s' a) = Done
               \<and> result (tasks s' a) \<noteq> None)"
    if f: "fire env e s = Some s'" for e s'
  proof (cases "e = Finish a")
    case False
    then show ?thesis using frame_fire [OF f assms(2)] by simp
  next
    case True
    have "\<not> isDone s a" and d': "isDone s' a"
      using finish_once [OF i, of env a s'] f True by simp_all
    then have p: "status (tasks s a) = Pending" using 2 assms(2) by (simp add: isDone_def)
    have "task_ok s' a" using i f by (rule task_ok_fire)
    then show ?thesis using True p d' by (simp add: isDone_def task_ok_def)
  qed
  have 5: "tasks s' a = tasks s a"
    if "run env evs' s = Some s'" "status (tasks s a) = Done" for evs' s'
    using done_run [OF i that(1) assms(2) that(2)] by simp
  show ?thesis using 1 2 3 4 5 by blast
qed

theorem task_done_once_witness:
  "result (tasks (after [ToolCall ''slow'' 0 (req0 ''slow'' ''x''), Forwarded 0, Finish 0]) 0)
     = Some (NewToolResultText ''ok'')
   \<and> status (tasks (after [ToolCall ''slow'' 0 (req0 ''slow'' ''x''), Forwarded 0, Finish 0]) 0) = Done
   \<and> count_list [ToolCall ''slow'' 0 (req0 ''slow'' ''x''), Forwarded 0, Finish 0] (Finish 0) = 1"
proof -
  let ?evs = "[ToolCall ''slow'' 0 (req0 ''slow'' ''x''), Forwarded 0, Finish 0]"
  have a: "0 < allocated (after ?evs)" by (simp add: example_defs)
  have r: "result (tasks (after ?evs) 0) = Some (NewToolResultText ''ok'')"
    by (simp add: example_defs)
  note T = task_done_once [OF run_slow a]
  have d: "status (tasks (after ?evs) 0) = Done"
    using T [THEN conjunct1] r by simp
  have c: "count_list ?evs (Finish 0) = 1"
    using T [THEN conjunct2, THEN conjunct2, THEN conjunct1] d by (simp only: if_True refl)
  show ?thesis using r d c by (intro conjI)
qed

text \<open>
  Claim C5. A goroutine that waits in the \<^verbatim>\<open>select\<close> of the consent closure, with its
  context cancelled, can take the branch of \<^verbatim>\<open>ctx.Done()\<close>: the closure returns the
  error result "Cancelled while waiting for approval", which becomes the result of the
  task (now Done) that the caller polls. Neither step touches the queue of pending calls:
  it is the same map before and after, so the entry of the cancelled call stays in it.
\<close>

theorem cancelled_wait_keeps_entry:
  assumes "goroutines s a = G_Select ctx" and "ctx \<in> cancelled s"
  shows "\<exists>s' s''. fire env (CtxDone a) s = Some s'
           \<and> goroutines s' a = G_Return (NewToolResultError ''Cancelled while waiting for approval'')
           \<and> callQueue s' = callQueue s
           \<and> fire env (Finish a) s' = Some s''
           \<and> status (tasks s'' a) = Done
           \<and> result (tasks s'' a) = Some (NewToolResultError ''Cancelled while waiting for approval'')
           \<and> callQueue s'' = callQueue s"
  using assms by (simp add: finish_def)

theorem cancelled_wait_keeps_entry_witness:
  "\<exists>s' s''. fire env0 (CtxDone 0)
               (after [ConsentCall ''list_tasks'' 5 (req0 ''list_tasks'' ''x''), Enqueue 0, Cancel 5])
             = Some s'
           \<and> fire env0 (Finish 0) s' = Some s''
           \<and> result (tasks s'' 0) = Some (NewToolResultError ''Cancelled while waiting for approval'')
           \<and> callQueue s'' 1 =
               Some \<lparr>CallID = 1, Request = req0 ''list_tasks'' ''x'', ResponseC = 0\<rparr>"
proof -
  let ?s = "after [ConsentCall ''list_tasks'' 5 (req0 ''list_tasks'' ''x''), Enqueue 0, Cancel 5]"
  have g: "goroutines ?s 0 = G_Select 5" and c: "5 \<in> cancelled ?s"
    and q: "callQueue ?s 1 = Some \<lparr>CallID = 1, Request = req0 ''list_tasks'' ''x'', ResponseC = 0\<rparr>"
    by (simp_all add: example_defs)
  from cancelled_wait_keeps_entry [OF g c, of env0]
  obtain s' s'' where "fire env0 (CtxDone 0) ?s = Some s'" "fire env0 (Finish 0) s' = Some s''"
    "result (tasks s'' 0) = Some (NewToolResultError ''Cancelled while waiting for approval'')"
    "callQueue s'' = callQueue ?s"
    by blast
  then show ?thesis using q by (intro exI [of _ s'] exI [of _ s'']) simp
qed

text \<open>
  Claim C1. An approval handler, approve or reject alike, reads the entry of the call id
  and deletes the key in one critical section, before it forwards or delivers anything:
  whatever was there, the key is absent afterwards. If the key was absent the handler
  answers 404 "Not found" and changes nothing; otherwise it goes on with the entry it
  took: to forward it when approving, to send the rejection when rejecting. A second call
  for the same id, with either flag, right after such a call answers "Not found".
  In every reachable state, when a handler is past its critical section with the entry of
  a pending call and has not yet delivered, that entry is no longer in the queue and no
  other handler holds the same call. Along every run from the initial state, at most one
  decision ever takes the entry of a given pending call; and, as long as the run has
  fewer than \<open>2^64\<close> events (the counter of call ids is 64 bits wide and has not come
  round), at most one decision, approve or reject, ever finds an entry under a given
  call id.
\<close>

theorem decide_at_most_once:
  assumes "run env evs (init u) = Some s" and "length evs < 2 ^ 64"
    and "Atoi env idStr = Some cid"
  shows "callQueue (snd (handleApproval env approve idStr s)) = (callQueue s)(cid := None)
       \<and> (callQueue s cid = None \<longrightarrow>
            handleApproval env approve idStr s = (H_Replied (HttpError ''Not found'' 404), s))
       \<and> (\<forall>pc. callQueue s cid = Some pc \<longrightarrow>
            fst (handleApproval env approve idStr s) =
              (if approve then H_Forward pc
               else H_Send (ResponseC pc) (NewToolResultError ''User rejected the request'')))
       \<and> fst (handleApproval env approve' idStr (snd (handleApproval env approve idStr s)))
           = H_Replied (HttpError ''Not found'' 404)
       \<and> (\<forall>h c. holds (handlers s h) c \<longrightarrow>
            (\<forall>k pc. callQueue s k = Some pc \<longrightarrow> ResponseC pc \<noteq> c)
          \<and> (\<forall>h'. holds (handlers s h') c \<longrightarrow> h' = h))
       \<and> (\<forall>c. tally (takes env c) env evs (init u) \<le> 1)
       \<and> tally (decides env cid) env evs (init u) \<le> 1"
proof -
  have i: "chan_inv s" using chan_inv_init assms(1) by (rule chan_inv_run)
  have 1: "callQueue (snd (handleApproval env approve idStr s)) = (callQueue s)(cid := None)"
    using assms(3) by (simp add: handleApproval_def lookupAndDelete_def split: option.splits)
  have 2: "handleApproval env approve idStr s = (H_Replied (HttpError ''Not found'' 404), s)"
    if "callQueue s cid = None"
    using assms(3) that by (simp add: handleApproval_def lookupAndDelete_def fun_upd_idem)
  have 3: "fst (handleApproval env approve idStr s) =
              (if approve then H_Forward pc
               else H_Send (ResponseC pc) (NewToolResultError ''User rejected the request''))"
    if "callQueue s cid = Some pc" for pc
    using assms(3) that by (simp add: handleApproval_def lookupAndDelete_def)
  have 4: "fst (handleApproval env approve' idStr (snd (handleApproval env approve idStr s)))
           = H_Replied (HttpError ''Not found'' 404)"
    using assms(3) by (simp add: handleApproval_def lookupAndDelete_def split: option.splits)
  have 5: "(\<forall>k pc. callQueue s k = Some pc \<longrightarrow> ResponseC pc \<noteq> c)
          \<and> (\<forall>h'. holds (handlers s h') c \<longrightarrow> h' = h)"
    if "holds (handlers s h) c" for h c
    using queued_not_held [OF i] held_once [OF i] that by blast
  have 6: "tally (decides env cid) env evs (init u) \<le> 1"
    using assms(2) by (rule decided_once)
  have 7: "tally (takes env c) env evs (init u) \<le> 1" for c
    using chan_inv_init by (rule taken_once)
  show ?thesis using 1 2 3 4 5 6 7 by blast
qed

theorem decide_at_most_once_witness:
  "handlers (after evs1) 1 = H_Replied (HttpError ''Not found'' 404)
   \<and> result (tasks (after evs1) 0) = Some (NewToolResultError ''User rejected the request'')
   \<and> handleApproval env0 True ''1'' (after evs1)
       = (H_Replied (HttpError ''Not found'' 404), after evs1)
   \<and> tally (decides env0 1) env0 evs1 (init 0) = 1"
proof -
  have l: "length evs1 < 2 ^ 64" by (simp add: evs1_def)
  have a: "Atoi env0 ''1'' = Some 1" by (simp add: env0_def)
  note T = decide_at_most_once [OF run_evs1 l a, of True]
  have q: "callQueue (after evs1) 1 = None" by (simp add: evs1_def example_defs)
  have 1: "handlers (after evs1) 1 = H_Replied (HttpError ''Not found'' 404)"
    by (simp add: evs1_def example_defs)
  have 2: "result (tasks (after evs1) 0) = Some (NewToolResultError ''User rejected the request'')"
    by (simp add: evs1_def example_defs)
  have 3: "handleApproval env0 True ''1'' (after evs1)
             = (H_Replied (HttpError ''Not found'' 404), after evs1)"
    using T [THEN conjunct2, THEN conjunct1, THEN mp, OF q] .
  have "1 \<le> tally (decides env0 1) env0 evs1 (init 0)"
    by (simp add: evs1_def decides_def example_defs)
  moreover have "tally (decides env0 1) env0 evs1 (init 0) \<le> 1"
    using T by blast
  ultimately have 4: "tally (decides env0 1) env0 evs1 (init 0) = 1" by simp
  show ?thesis using 1 2 3 4 by (intro conjI)
qed

end
